theory Spec2Isabelle
  imports Main
begin

section \<open>Strings and paths\<close>

text \<open>
  Python strings are modelled as \<^typ>\<open>string\<close>. The functions below are the
  library calls that \<^verbatim>\<open>portgraph.py\<close> makes on them, on a POSIX system where
  \<^verbatim>\<open>os.sep\<close> is the slash.
\<close>

definition os_sep :: char where
  "os_sep = CHR ''/''"

text \<open>\<^verbatim>\<open>s.split(c)\<close> for a one-character separator: never the empty list.\<close>

fun split :: "char \<Rightarrow> string \<Rightarrow> string list" where
  "split c [] = [[]]"
| "split c (x # xs) =
     (if x = c then [] # split c xs
      else (case split c xs of [] \<Rightarrow> [[x]] | w # ws \<Rightarrow> (x # w) # ws))"

text \<open>\<^verbatim>\<open>c.join(ws)\<close>.\<close>

fun join :: "char \<Rightarrow> string list \<Rightarrow> string" where
  "join c [] = []"
| "join c [w] = w"
| "join c (w # ws) = w @ c # join c ws"

text \<open>\<^verbatim>\<open>xs[-2:]\<close>: the last two elements, or all of them when there are fewer.\<close>

definition last2 :: "'a list \<Rightarrow> 'a list" where
  "last2 xs = drop (length xs - 2) xs"

text \<open>\<^verbatim>\<open>s.rfind(c)\<close>: the index of the last occurrence of \<open>c\<close>, or \<open>-1\<close>.\<close>

definition rfind :: "string \<Rightarrow> char \<Rightarrow> int" where
  "rfind s c =
     (if c \<in> set s
      then int (length s - 1 - length (takeWhile (\<lambda>x. x \<noteq> c) (rev s)))
      else - 1)"

text \<open>\<^verbatim>\<open>s.find(c)\<close>: the index of the first occurrence of \<open>c\<close>, or \<open>-1\<close>.\<close>

definition find_chr :: "string \<Rightarrow> char \<Rightarrow> int" where
  "find_chr s c =
     (if c \<in> set s then int (length (takeWhile (\<lambda>x. x \<noteq> c) s)) else - 1)"

text \<open>
  \<^verbatim>\<open>s[:k]\<close> and \<^verbatim>\<open>s[k:]\<close> for any integer \<open>k\<close>: a negative index counts from
  the end and is clipped at the start.
\<close>

definition slice_to :: "string \<Rightarrow> int \<Rightarrow> string" where
  "slice_to s k = (if k < 0 then take (nat (int (length s) + k)) s else take (nat k) s)"

definition slice_from :: "string \<Rightarrow> int \<Rightarrow> string" where
  "slice_from s k = (if k < 0 then drop (nat (int (length s) + k)) s else drop (nat k) s)"

text \<open>\<^verbatim>\<open>os.path.join(a, b)\<close> of \<^verbatim>\<open>posixpath\<close>, for two components.\<close>

definition os_path_join :: "string \<Rightarrow> string \<Rightarrow> string" where
  "os_path_join a b =
     (if b \<noteq> [] \<and> hd b = os_sep then b
      else if a = [] \<or> last a = os_sep then a @ b
      else a @ os_sep # b)"

text \<open>A Python \<^verbatim>\<open>if flavor:\<close> on a value that is \<^verbatim>\<open>None\<close> or a string.\<close>

definition truthy :: "string option \<Rightarrow> bool" where
  "truthy v = (case v of None \<Rightarrow> False | Some s \<Rightarrow> s \<noteq> [])"

definition str_of :: "string option \<Rightarrow> string" where
  "str_of v = (case v of None \<Rightarrow> [] | Some s \<Rightarrow> s)"

section \<open>Port names\<close>

text \<open>\<^verbatim>\<open>Portgraph._fullname2port\<close>: the last two path segments, category/name.\<close>

definition fullname2port :: "string \<Rightarrow> string" where
  "fullname2port name = join os_sep (last2 (split os_sep name))"

text \<open>\<^verbatim>\<open>Portgraph._flavorname2port\<close>: the name cut at its last \<open>@\<close>.\<close>

definition flavorname2port :: "string \<Rightarrow> string" where
  "flavorname2port flavorname =
     (let sup_flavor = rfind flavorname (CHR ''@'');
          sup_flavor = (if sup_flavor = - 1 then int (length flavorname) else sup_flavor)
      in slice_to flavorname sup_flavor)"

section \<open>The graph and the outside world\<close>

text \<open>
  The \<^verbatim>\<open>Digraph\<close> object is modelled by its body: the statements in the order of
  the calls that added them. \<^verbatim>\<open>graph.node\<close> and \<^verbatim>\<open>graph.edge\<close> only append, so
  a name may have several node statements and a pair several edge statements.
\<close>

datatype stmt =
  Attr string "(string \<times> string) list"
| Node string "string option" string string
| Edge string string string

text \<open>
  The two \<^verbatim>\<open>subprocess.Popen\<close> call sites of the program:
  \<^item> \<open>MakeMaintainer d\<close> is \<^verbatim>\<open>make -C d maintainer\<close>;
  \<^item> \<open>MakeDependsList d k f\<close> is
    \<^verbatim>\<open>make -C d k-depends-list -DDEPENDS_SHOW_FLAVOR\<close>, followed by
    \<^verbatim>\<open>FLAVOR=f\<close> when \<open>f\<close> is not \<open>None\<close>.

  The outside world is a function \<open>popen\<close> from a command to the lines the process
  writes before the end of its output, each already decoded and passed through
  \<^verbatim>\<open>rstrip()\<close>. A command that fails (a missing directory, say) writes nothing
  to its standard output: the empty list.
\<close>

datatype cmd =
  MakeMaintainer string
| MakeDependsList string string "string option"

type_synonym popen = "cmd \<Rightarrow> string list"

text \<open>The first line of a process, or the empty string at the end of output.\<close>

definition readline :: "string list \<Rightarrow> string" where
  "readline ls = (case ls of [] \<Rightarrow> [] | l # _ \<Rightarrow> l)"

text \<open>
  The fields of a \<^verbatim>\<open>Portgraph\<close> object. \<open>graph_body\<close> is the body of
  \<^verbatim>\<open>self.graph\<close>. Two more fields record the effects on the outside world:
  \<open>procs\<close>, the processes started, and \<open>printed\<close>, the lines printed, both in order.
\<close>

record portgraph =
  graph_body :: "stmt list"
  localbase :: string
  flavor :: "string option"
  port :: string
  with_pkg :: bool
  verbose :: bool
  recursion :: int
  url :: bool
  www :: string
  suffix :: string
  all_ports :: "string list"
  pkg :: string
  build :: bool
  run :: bool
  abandoned :: bool
  procs :: "cmd list"
  printed :: "string list"

text \<open>\<^verbatim>\<open>Portgraph.__init__\<close>.\<close>

definition Portgraph_init ::
  "stmt list \<Rightarrow> string \<Rightarrow> string \<Rightarrow> string option \<Rightarrow> bool \<Rightarrow> bool \<Rightarrow> int \<Rightarrow>
   string option \<Rightarrow> string option \<Rightarrow> bool \<Rightarrow> bool \<Rightarrow> bool \<Rightarrow> portgraph" where
  "Portgraph_init graph port' localbase' flavor' with_pkg' verbose' recursion'
     www' suffix' build' run' show_if_abandoned =
   \<lparr> graph_body = graph @
       [Attr ''node'' [(''style'', ''filled''), (''fillcolor'', ''#E1E1E1''),
                       (''fontcolor'', ''#737373'')]],
     localbase = localbase',
     flavor = flavor',
     port = port',
     with_pkg = with_pkg',
     verbose = verbose',
     recursion = recursion',
     url = (www' \<noteq> None),
     www = str_of www',
     suffix = str_of suffix',
     all_ports = [],
     pkg = ''ports-mgmt/pkg'',
     build = build',
     run = run',
     abandoned = show_if_abandoned,
     procs = [],
     printed = [] \<rparr>"

section \<open>Adding a node\<close>

text \<open>\<^verbatim>\<open>Portgraph._add_node\<close>.\<close>

definition add_node :: "popen \<Rightarrow> string \<Rightarrow> portgraph \<Rightarrow> portgraph" where
  "add_node popen ports st =
     (let portname = flavorname2port ports;
          node_url = (if url st then Some (www st @ fullname2port portname @ suffix st)
                      else None);
          (node_color, node_style, st) =
            (if abandoned st
             then (let proc_maintainer = MakeMaintainer portname;
                       st = st\<lparr>procs := procs st @ [proc_maintainer]\<rparr>;
                       maintainer = readline (popen proc_maintainer)
                   in if maintainer = ''ports@FreeBSD.org'' then (''red'', ''bold'', st)
                      else (''black'', ''filled'', st))
             else (''black'', ''filled'', st))
      in if fullname2port ports \<noteq> pkg st \<or> (fullname2port ports = pkg st \<and> with_pkg st)
         then st\<lparr>graph_body := graph_body st @
                  [Node (fullname2port ports) node_url node_color node_style]\<rparr>
         else st)"

section \<open>The traversal\<close>

text \<open>
  \<^verbatim>\<open>Portgraph._recurseports\<close>. The \<^verbatim>\<open>while True\<close> loop reads the dependency lines one
  by one: \<open>depends_loop\<close> is that loop over the lines of the process, with the recursive
  call as a parameter \<open>rec\<close>. \<open>depends_args\<close> is the pair of the kind and its colour.

  The recursion has no bound of its own, so \<open>recurseports\<close> takes a bound on the nesting
  depth of the calls: \<open>None\<close> means that the bound did not suffice.
\<close>

fun depends_loop ::
  "(string \<Rightarrow> portgraph \<Rightarrow> portgraph option) \<Rightarrow> popen \<Rightarrow> string \<Rightarrow> string \<times> string \<Rightarrow>
   string list \<Rightarrow> portgraph \<Rightarrow> portgraph option" where
  "depends_loop rec popen ports depends_args [] st = Some st"
| "depends_loop rec popen ports depends_args (dep_port # lines) st =
     (let st = st\<lparr>all_ports := all_ports st @ [ports]\<rparr>;
          portname = fullname2port ports;
          depportname = fullname2port dep_port;
          st = (if depportname \<noteq> pkg st \<or> (depportname = pkg st \<and> with_pkg st)
                then st\<lparr>graph_body := graph_body st @
                         [Edge portname depportname (snd depends_args)]\<rparr>
                else st)
      in if dep_port \<notin> set (all_ports st)
         then (let st = add_node popen dep_port st;
                   st = st\<lparr>all_ports := all_ports st @ [dep_port]\<rparr>
               in case rec dep_port st of
                    None \<Rightarrow> None
                  | Some st \<Rightarrow> depends_loop rec popen ports depends_args lines st)
         else depends_loop rec popen ports depends_args lines st)"

fun recurseports ::
  "nat \<Rightarrow> popen \<Rightarrow> string \<Rightarrow> string option \<Rightarrow> string \<times> string \<Rightarrow> int \<Rightarrow>
   portgraph \<Rightarrow> portgraph option" where
  "recurseports 0 popen ports flavor' depends_args max_recurse st = None"
| "recurseports (Suc depth) popen ports flavor' depends_args max_recurse st =
     (if max_recurse = 0 then Some st
      else
        (let st = (if verbose st then st\<lparr>printed := printed st @ [ports]\<rparr> else st);
             portname = flavorname2port ports;
             st = add_node popen ports st;
             proc = MakeDependsList portname (fst depends_args)
                      (if truthy flavor' then flavor' else None);
             st = st\<lparr>procs := procs st @ [proc]\<rparr>
         in depends_loop
              (\<lambda>dep_port. recurseports depth popen dep_port flavor' depends_args
                 (max_recurse - 1))
              popen ports depends_args (popen proc) st))"

text \<open>\<^verbatim>\<open>Portgraph.build_graph\<close>.\<close>

definition build_graph :: "nat \<Rightarrow> popen \<Rightarrow> portgraph \<Rightarrow> portgraph option" where
  "build_graph depth popen st =
     (let st = (if truthy (flavor st)
                then st\<lparr>port := port st @ ''@'' @ str_of (flavor st)\<rparr> else st)
      in case (if build st
               then recurseports depth popen (os_path_join (localbase st) (port st))
                      (flavor st) (''build'', ''#009999'') (recursion st) st
               else Some st) of
           None \<Rightarrow> None
         | Some st \<Rightarrow>
             (if run st
              then recurseports depth popen (os_path_join (localbase st) (port st))
                     (flavor st) (''run'', ''#990000'') (recursion st) st
              else Some st))"

section \<open>Rendering one port, and all of them\<close>

text \<open>
  \<^verbatim>\<open>graph4port\<close> and \<^verbatim>\<open>graph4allports\<close> work on the file system and call the
  renderer, and here every call to the outside may raise. The outside world is a record:
  \<^item> \<open>popen_of\<close>: for a command, the exception that \<^verbatim>\<open>subprocess.Popen\<close> raises for
    it (no \<^verbatim>\<open>make\<close> to run, say), or else the lines of the process;
  \<^item> \<open>scandir\<close>: for a directory, the exception of \<^verbatim>\<open>os.scandir\<close> or its entries;
  \<^item> \<open>makedirs\<close> and \<open>render\<close>: the exception of \<^verbatim>\<open>os.makedirs\<close> and of
    \<^verbatim>\<open>graph.render\<close>, if any.

  An exception is a value of \<open>error\<close>. The program has no handler, so an exception ends
  every function it passes through.
\<close>

datatype error = PopenError | ScandirError | MakedirsError | RenderError

record dir_entry =
  name :: string
  is_dir :: bool

record world =
  popen_of :: "cmd \<Rightarrow> error + string list"
  scandir :: "string \<Rightarrow> error + dir_entry list"
  makedirs :: "string \<Rightarrow> error option"
  render :: "string \<Rightarrow> stmt list \<Rightarrow> bool \<Rightarrow> error option"

text \<open>
  An exception of \<^verbatim>\<open>subprocess.Popen\<close> leaves \<open>build_graph\<close> at the first command
  that raises, and \<^verbatim>\<open>graph4port\<close> uses nothing of the object after it. So the traversal
  is run with no lines for a command that raises, and the outcome is the exception of the
  first command of its log that raises: up to that command the run is the run of the
  program, and the rest of it is dropped.
\<close>

definition lines_of :: "world \<Rightarrow> popen" where
  "lines_of w k = (case popen_of w k of Inl e \<Rightarrow> [] | Inr ls \<Rightarrow> ls)"

fun first_raised :: "world \<Rightarrow> cmd list \<Rightarrow> error option" where
  "first_raised w [] = None"
| "first_raised w (k # ks) =
     (case popen_of w k of Inl e \<Rightarrow> Some e | Inr ls \<Rightarrow> first_raised w ks)"

text \<open>
  \<^verbatim>\<open>graph4port\<close>. The new \<^verbatim>\<open>Digraph\<close> has an empty body (its name, format and
  \<^verbatim>\<open>rankdir\<close> are attributes of the graph, not statements). The result is \<open>None\<close>
  when the bound on the nesting of calls did not suffice, the exception when one is
  raised, and else the path given to the renderer.
\<close>

definition graph4port ::
  "nat \<Rightarrow> world \<Rightarrow> string \<Rightarrow> string \<Rightarrow> string option \<Rightarrow> bool \<Rightarrow> bool \<Rightarrow> int \<Rightarrow>
   string option \<Rightarrow> string option \<Rightarrow> bool \<Rightarrow> bool \<Rightarrow> bool \<Rightarrow> bool \<Rightarrow> (error + string) option" where
  "graph4port depth w port' localbase' flavor' with_pkg' verbose' recursion' url' suffix'
     build' run' abandoned' clean =
     (let category = slice_to port' (find_chr port' (CHR ''/''));
          name' = slice_from port' (find_chr port' (CHR ''/'') + 1);
          name' = (if truthy flavor' then name' @ ''@'' @ str_of flavor' else name');
          graph = [];
          portgraph = Portgraph_init graph port' localbase' flavor' with_pkg' verbose'
                        recursion' url' suffix' build' run' abandoned'
      in case build_graph depth (lines_of w) portgraph of
           None \<Rightarrow> None
         | Some portgraph \<Rightarrow>
             Some (case first_raised w (procs portgraph) of
                     Some e \<Rightarrow> Inl e
                   | None \<Rightarrow>
                       (case makedirs w category of
                          Some e \<Rightarrow> Inl e
                        | None \<Rightarrow>
                            (case render w (os_path_join category name')
                                    (graph_body portgraph) clean of
                               Some e \<Rightarrow> Inl e
                             | None \<Rightarrow> Inr (os_path_join category name')))))"

text \<open>
  \<^verbatim>\<open>graph4allports\<close>: the two nested \<^verbatim>\<open>for\<close> loops, the outer one over the
  categories and the inner one over the ports of a category. Each list is built, by
  \<^verbatim>\<open>os.scandir\<close>, before its loop starts. A directory entry of \<^verbatim>\<open>os.scandir(d)\<close> has
  the path \<^verbatim>\<open>os.path.join(d, name)\<close>, which is what \<^verbatim>\<open>os.path.join(localbase, cat)\<close>
  joins. The loops carry the paths rendered so far and return them with the exception that
  ended the batch, if any.
\<close>

fun port_loop ::
  "(string \<Rightarrow> (error + string) option) \<Rightarrow> dir_entry \<Rightarrow> dir_entry list \<Rightarrow> string list \<Rightarrow>
   (string list \<times> error option) option" where
  "port_loop g cat [] rendered = Some (rendered, None)"
| "port_loop g cat (port' # ports) rendered =
     (case g (os_path_join (name cat) (name port')) of
        None \<Rightarrow> None
      | Some (Inl e) \<Rightarrow> Some (rendered, Some e)
      | Some (Inr f) \<Rightarrow> port_loop g cat ports (rendered @ [f]))"

fun cat_loop ::
  "(string \<Rightarrow> (error + string) option) \<Rightarrow> world \<Rightarrow> string \<Rightarrow> dir_entry list \<Rightarrow>
   string list \<Rightarrow> (string list \<times> error option) option" where
  "cat_loop g w localbase' [] rendered = Some (rendered, None)"
| "cat_loop g w localbase' (cat # cats) rendered =
     (case scandir w (os_path_join localbase' (os_path_join localbase' (name cat))) of
        Inl e \<Rightarrow> Some (rendered, Some e)
      | Inr recs \<Rightarrow>
          (case port_loop g cat (filter is_dir recs) rendered of
             None \<Rightarrow> None
           | Some (rendered, Some e) \<Rightarrow> Some (rendered, Some e)
           | Some (rendered, None) \<Rightarrow> cat_loop g w localbase' cats rendered))"

definition graph4allports ::
  "nat \<Rightarrow> world \<Rightarrow> string \<Rightarrow> string option \<Rightarrow> bool \<Rightarrow> bool \<Rightarrow> int \<Rightarrow>
   string option \<Rightarrow> string option \<Rightarrow> bool \<Rightarrow> bool \<Rightarrow> bool \<Rightarrow> bool \<Rightarrow>
   (string list \<times> error option) option" where
  "graph4allports depth w localbase' flavor' with_pkg' verbose' recursion' url' suffix'
     build' run' abandoned' clean =
     (case scandir w localbase' of
        Inl e \<Rightarrow> Some ([], Some e)
      | Inr recs \<Rightarrow>
          cat_loop
            (\<lambda>port'. graph4port depth w port' localbase' flavor' with_pkg' verbose'
                       recursion' url' suffix' build' run' abandoned' clean)
            w localbase'
            (filter (\<lambda>rec. is_dir rec \<and>
                       name rec \<notin> set [''Mk'', ''distfiles'', ''Tools'', ''Templates'',
                                        ''Keywords'', ''base''])
               recs)
            [])"

section \<open>Notions used in the statements and proofs\<close>

text \<open>
  The elementary effects of the traversal, named so that the lemmas can speak about them:
  recording a name in \<open>all_ports\<close>, the guarded \<^verbatim>\<open>graph.edge\<close> call, the verbose
  print, and the start of a process.
\<close>

definition visit :: "string \<Rightarrow> portgraph \<Rightarrow> portgraph" where
  "visit p s = s\<lparr>all_ports := all_ports s @ [p]\<rparr>"

definition add_edge :: "string \<Rightarrow> string \<Rightarrow> string \<Rightarrow> portgraph \<Rightarrow> portgraph" where
  "add_edge a b c s =
     (if b \<noteq> pkg s \<or> with_pkg s then s\<lparr>graph_body := graph_body s @ [Edge a b c]\<rparr> else s)"

definition say :: "string \<Rightarrow> portgraph \<Rightarrow> portgraph" where
  "say p s = (if verbose s then s\<lparr>printed := printed s @ [p]\<rparr> else s)"

definition spawn :: "cmd \<Rightarrow> portgraph \<Rightarrow> portgraph" where
  "spawn c s = s\<lparr>procs := procs s @ [c]\<rparr>"

text \<open>The dependency-list command that \<open>recurseports\<close> starts for a name.\<close>

definition depends_cmd :: "string \<Rightarrow> string \<times> string \<Rightarrow> string option \<Rightarrow> cmd" where
  "depends_cmd p da fl =
     MakeDependsList (flavorname2port p) (fst da) (if truthy fl then fl else None)"

text \<open>The fields that the traversal only reads.\<close>

definition config ::
  "portgraph \<Rightarrow> (string \<times> string option \<times> string \<times> bool \<times> bool \<times> int) \<times>
     (bool \<times> string \<times> string \<times> string \<times> bool \<times> bool \<times> bool)" where
  "config s = ((localbase s, flavor s, port s, with_pkg s, verbose s, recursion s),
               (url s, www s, suffix s, pkg s, build s, run s, abandoned s))"

text \<open>A name is shown unless it is the privileged package and that package is hidden.\<close>

definition shown :: "portgraph \<Rightarrow> string \<Rightarrow> bool" where
  "shown s n \<longleftrightarrow> n \<noteq> pkg s \<or> with_pkg s"

text \<open>The colour and style of the node of a name, with the maintainer check on or off.\<close>

definition node_style :: "popen \<Rightarrow> bool \<Rightarrow> string \<Rightarrow> string \<times> string" where
  "node_style popen check ports =
     (if check \<and>
         readline (popen (MakeMaintainer (flavorname2port ports))) = ''ports@FreeBSD.org''
      then (''red'', ''bold'') else (''black'', ''filled''))"

definition node_stmt :: "popen \<Rightarrow> portgraph \<Rightarrow> string \<Rightarrow> stmt" where
  "node_stmt popen s p =
     Node (fullname2port p)
       (if url s then Some (www s @ fullname2port (flavorname2port p) @ suffix s) else None)
       (fst (node_style popen (abandoned s) p)) (snd (node_style popen (abandoned s) p))"

text \<open>
  What a traversal from \<open>st\<close> to \<open>s\<close> over the names in \<open>U\<close> may have done: it leaves
  the configuration alone and only appends, statements and commands of the names in \<open>U\<close>.
\<close>

definition emitted :: "popen \<Rightarrow> portgraph \<Rightarrow> string set \<Rightarrow> string \<Rightarrow> stmt \<Rightarrow> bool" where
  "emitted popen st U col x \<longleftrightarrow>
     (\<exists>p\<in>U. shown st (fullname2port p) \<and> x = node_stmt popen st p) \<or>
     (\<exists>a\<in>U. \<exists>b\<in>U. shown st (fullname2port b) \<and>
        x = Edge (fullname2port a) (fullname2port b) col)"

definition started ::
  "portgraph \<Rightarrow> string set \<Rightarrow> string \<times> string \<Rightarrow> string option \<Rightarrow> cmd \<Rightarrow> bool" where
  "started st U da fl k \<longleftrightarrow>
     (abandoned st \<and> (\<exists>p\<in>U. k = MakeMaintainer (flavorname2port p))) \<or>
     (\<exists>p\<in>U. k = depends_cmd p da fl)"

definition trace ::
  "popen \<Rightarrow> string set \<Rightarrow> string \<times> string \<Rightarrow> string option \<Rightarrow> portgraph \<Rightarrow> portgraph \<Rightarrow> bool"
  where
  "trace popen U da fl st s \<longleftrightarrow>
     config s = config st \<and>
     (\<exists>G. graph_body s = graph_body st @ G \<and> (\<forall>x\<in>set G. emitted popen st U (snd da) x)) \<and>
     (\<exists>K. procs s = procs st @ K \<and> (\<forall>k\<in>set K. started st U da fl k)) \<and>
     (\<exists>A. all_ports s = all_ports st @ A \<and> set A \<subseteq> U) \<and>
     (\<exists>L. printed s = printed st @ L)"

text \<open>
  The number of expansions so far is the number of dependency-list commands started; the
  names of \<open>U\<close> that a call for \<open>p\<close> may still meet for the first time are those
  outside \<open>all_ports\<close>, \<open>p\<close> apart.
\<close>

fun is_depends_list :: "cmd \<Rightarrow> bool" where
  "is_depends_list (MakeDependsList d k f) = True"
| "is_depends_list (MakeMaintainer d) = False"

definition expansions :: "portgraph \<Rightarrow> nat" where
  "expansions s = length (filter is_depends_list (procs s))"

definition unvisited :: "string set \<Rightarrow> string \<Rightarrow> portgraph \<Rightarrow> nat" where
  "unvisited U p s = card (U - set (all_ports s) - {p})"

text \<open>How often a command has been started so far.\<close>

definition times_started :: "cmd \<Rightarrow> portgraph \<Rightarrow> nat" where
  "times_started c s = count_list (procs s) c"

text \<open>
  A set of names is closed when it holds, with each name, the build and the run dependency
  lines that the oracle gives for it under the flavour of the pass.
\<close>

definition dependency_closed :: "popen \<Rightarrow> string option \<Rightarrow> string set \<Rightarrow> bool" where
  "dependency_closed popen fl U \<longleftrightarrow>
     (\<forall>p\<in>U. \<forall>kind\<in>{''build'', ''run''}.
        set (popen (MakeDependsList (flavorname2port p) kind
               (if truthy fl then fl else None))) \<subseteq> U)"

text \<open>The statements and commands of either pass of \<open>build_graph\<close>.\<close>

definition written :: "popen \<Rightarrow> portgraph \<Rightarrow> string set \<Rightarrow> stmt \<Rightarrow> bool" where
  "written popen st U x \<longleftrightarrow>
     emitted popen st U ''#009999'' x \<or> emitted popen st U ''#990000'' x"

definition run_cmd :: "portgraph \<Rightarrow> string set \<Rightarrow> cmd \<Rightarrow> bool" where
  "run_cmd st U k \<longleftrightarrow>
     started st U (''build'', ''#009999'') (flavor st) k \<or>
     started st U (''run'', ''#990000'') (flavor st) k"

text \<open>The first step of \<open>build_graph\<close>, and the root name both passes start from.\<close>

definition flavored :: "portgraph \<Rightarrow> portgraph" where
  "flavored st =
     (if truthy (flavor st) then st\<lparr>port := port st @ ''@'' @ str_of (flavor st)\<rparr> else st)"

definition root :: "portgraph \<Rightarrow> string" where
  "root st = os_path_join (localbase (flavored st)) (port (flavored st))"

text \<open>
  The node statements \<open>G\<close> and the commands \<open>K\<close> that a run added follow the styling
  policy: every node is the one \<open>add_node\<close> makes for some name, and no maintainer
  command was started with the check off.
\<close>

definition styled :: "popen \<Rightarrow> portgraph \<Rightarrow> stmt list \<Rightarrow> cmd list \<Rightarrow> bool" where
  "styled popen st G K \<longleftrightarrow>
     (\<forall>n u c s. Node n u c s \<in> set G \<longrightarrow> (\<exists>p. Node n u c s = node_stmt popen st p)) \<and>
     (\<not> abandoned st \<longrightarrow> (\<forall>d. MakeMaintainer d \<notin> set K))"

text \<open>
  What the two loops of \<open>graph4allports\<close> meet, in order: a port to render, or the
  exception of listing a directory. \<open>events_loop\<close> is one loop over such a list.
\<close>

definition cat_events :: "world \<Rightarrow> string \<Rightarrow> dir_entry \<Rightarrow> (error + string) list" where
  "cat_events w localbase' cat =
     (case scandir w (os_path_join localbase' (os_path_join localbase' (name cat))) of
        Inl e \<Rightarrow> [Inl e]
      | Inr recs \<Rightarrow> map (\<lambda>port'. Inr (os_path_join (name cat) (name port'))) (filter is_dir recs))"

definition batch_events :: "world \<Rightarrow> string \<Rightarrow> (error + string) list" where
  "batch_events w localbase' =
     (case scandir w localbase' of
        Inl e \<Rightarrow> [Inl e]
      | Inr recs \<Rightarrow>
          concat (map (cat_events w localbase')
            (filter (\<lambda>rec. is_dir rec \<and>
                       name rec \<notin> set [''Mk'', ''distfiles'', ''Tools'', ''Templates'',
                                        ''Keywords'', ''base''])
               recs)))"

fun events_loop ::
  "(string \<Rightarrow> (error + string) option) \<Rightarrow> (error + string) list \<Rightarrow> string list \<Rightarrow>
   (string list \<times> error option) option" where
  "events_loop g [] rendered = Some (rendered, None)"
| "events_loop g (Inl e # xs) rendered = Some (rendered, Some e)"
| "events_loop g (Inr q # xs) rendered =
     (case g q of
        None \<Rightarrow> None
      | Some (Inl e) \<Rightarrow> Some (rendered, Some e)
      | Some (Inr f) \<Rightarrow> events_loop g xs (rendered @ [f]))"

subsection \<open>A small ports tree\<close>

text \<open>
  A ports tree used for the concrete instances. Build dependencies:
  \<^verbatim>\<open>editors/foo\<close> lists \<^verbatim>\<open>devel/bar\<close> twice; \<^verbatim>\<open>devel/bar\<close> lists
  \<^verbatim>\<open>ports-mgmt/pkg\<close>, \<^verbatim>\<open>editors/foo\<close> (a cycle) and \<^verbatim>\<open>devel/baz\<close>;
  \<^verbatim>\<open>ports-mgmt/pkg\<close> lists \<^verbatim>\<open>devel/qux\<close>. Run dependencies: \<^verbatim>\<open>editors/foo\<close>
  lists \<^verbatim>\<open>devel/bar\<close>, which lists \<^verbatim>\<open>devel/baz\<close>. Only \<^verbatim>\<open>devel/bar\<close> has no
  maintainer.
\<close>

definition example_popen :: popen where
  "example_popen k =
     (case k of
        MakeMaintainer d \<Rightarrow>
          (if d = ''/usr/ports/devel/bar'' then [''ports@FreeBSD.org'']
           else [''joe@example.org''])
      | MakeDependsList d kind f \<Rightarrow>
          (if kind = ''build'' then
             (if d = ''/usr/ports/editors/foo''
              then [''/usr/ports/devel/bar'', ''/usr/ports/devel/bar'']
              else if d = ''/usr/ports/devel/bar''
              then [''/usr/ports/ports-mgmt/pkg'', ''/usr/ports/editors/foo'',
                    ''/usr/ports/devel/baz'']
              else if d = ''/usr/ports/ports-mgmt/pkg'' then [''/usr/ports/devel/qux'']
              else [])
           else
             (if d = ''/usr/ports/editors/foo'' then [''/usr/ports/devel/bar'']
              else if d = ''/usr/ports/devel/bar'' then [''/usr/ports/devel/baz'']
              else [])))"

text \<open>
  The object that \<^verbatim>\<open>graph4port\<close> builds for \<^verbatim>\<open>editors/foo\<close> under
  \<^verbatim>\<open>/usr/ports\<close>, without flavour, URL or the privileged package, with the build pass.
\<close>

definition example_portgraph :: "bool \<Rightarrow> bool \<Rightarrow> int \<Rightarrow> portgraph" where
  "example_portgraph run' show_if_abandoned recursion' =
     Portgraph_init [] ''editors/foo'' ''/usr/ports'' None False False recursion' None None
       True run' show_if_abandoned"

text \<open>The same object with the run pass alone.\<close>

definition example_run_only :: portgraph where
  "example_run_only =
     Portgraph_init [] ''editors/foo'' ''/usr/ports'' None False False (- 1) None None
       False True False"

text \<open>
  The dependency loop of \<^verbatim>\<open>editors/foo\<close> in the build pass of that tree, for given
  lines, as \<open>recurseports\<close> runs it with an unbounded depth budget.
\<close>

definition example_loop :: "string list \<Rightarrow> portgraph \<Rightarrow> portgraph option" where
  "example_loop lines st =
     depends_loop
       (\<lambda>x. recurseports 3 example_popen x None (''build'', ''#009999'') (- 1 - 1))
       example_popen ''/usr/ports/editors/foo'' (''build'', ''#009999'') lines st"

text \<open>The names of that tree, as the dependency lines give them.\<close>

definition example_ports :: "string list" where
  "example_ports =
     [''/usr/ports/editors/foo'', ''/usr/ports/devel/bar'', ''/usr/ports/ports-mgmt/pkg'',
      ''/usr/ports/devel/baz'', ''/usr/ports/devel/qux'']"

text \<open>
  The object for the flavour \<^verbatim>\<open>py39\<close> of \<^verbatim>\<open>devel/bar\<close>, with a depth budget of one,
  and the names of its tree.
\<close>

definition example_flavored :: portgraph where
  "example_flavored =
     Portgraph_init [] ''devel/bar'' ''/usr/ports'' (Some ''py39'') False False 1 None None
       True False False"

definition example_flavored_ports :: "string list" where
  "example_flavored_ports = ''/usr/ports/devel/bar@py39'' # example_ports"

text \<open>
  A world for the batch: the category \<^verbatim>\<open>editors\<close> with the ports \<^verbatim>\<open>foo\<close>,
  \<^verbatim>\<open>zed\<close> and \<^verbatim>\<open>vim\<close>, where the commands for the directory \<open>broken\<close> cannot be
  started and rendering fails for the path \<open>bad\<close>.
\<close>

definition example_world :: "string \<Rightarrow> string \<Rightarrow> world" where
  "example_world broken bad =
     \<lparr> popen_of = (\<lambda>k. if (case k of MakeMaintainer d \<Rightarrow> d | MakeDependsList d kind f \<Rightarrow> d) =
                            broken
                         then Inl PopenError else Inr (example_popen k)),
       scandir = (\<lambda>d. if d = ''/usr/ports''
                       then Inr [\<lparr>name = ''Mk'', is_dir = True\<rparr>,
                                 \<lparr>name = ''editors'', is_dir = True\<rparr>,
                                 \<lparr>name = ''README'', is_dir = False\<rparr>]
                       else if d = ''/usr/ports/editors''
                       then Inr [\<lparr>name = ''foo'', is_dir = True\<rparr>, \<lparr>name = ''zed'', is_dir = True\<rparr>,
                                 \<lparr>name = ''vim'', is_dir = True\<rparr>]
                       else Inl ScandirError),
       makedirs = (\<lambda>d. None),
       render = (\<lambda>f body clean. if f = bad then Some RenderError else None) \<rparr>"

definition example_graph4port :: "string \<Rightarrow> string \<Rightarrow> string \<Rightarrow> (error + string) option" where
  "example_graph4port broken bad port' =
     graph4port 5 (example_world broken bad) port' ''/usr/ports'' None False False (- 1)
       None None True False False True"

definition example_graph4allports ::
  "string \<Rightarrow> string \<Rightarrow> (string list \<times> error option) option" where
  "example_graph4allports broken bad =
     graph4allports 5 (example_world broken bad) ''/usr/ports'' None False False (- 1)
       None None True False False True"

section \<open>Flavour stripping\<close>

lemma rfind_last:
  "c \<notin> set ys \<Longrightarrow> rfind (xs @ c # ys) c = int (length xs)"
proof -
  assume a: "c \<notin> set ys"
  have "takeWhile (\<lambda>x. x \<noteq> c) (rev ys @ c # rev xs) = rev ys"
    using a by (auto simp add: takeWhile_tail)
  then show ?thesis by (simp add: rfind_def)
qed

lemma flavorname2port_no_flavor:
  "CHR ''@'' \<notin> set s \<Longrightarrow> flavorname2port s = s"
  by (simp add: flavorname2port_def rfind_def slice_to_def)

lemma flavorname2port_last_at:
  "CHR ''@'' \<notin> set ys \<Longrightarrow> flavorname2port (xs @ CHR ''@'' # ys) = xs"
  by (simp add: flavorname2port_def rfind_last slice_to_def)

lemma one_occurrence_decomp:
  assumes "length (filter (\<lambda>x. x = c) s) \<le> 1" "c \<in> set s"
  shows "\<exists>xs ys. s = xs @ c # ys \<and> c \<notin> set xs \<and> c \<notin> set ys"
proof -
  from assms(2) obtain xs ys where s: "s = xs @ c # ys" "c \<notin> set xs"
    by (auto dest: split_list_first)
  with assms(1) have "filter (\<lambda>x. x = c) ys = []" by simp
  then have "c \<notin> set ys" by (auto simp add: filter_empty_conv)
  with s show ?thesis by blast
qed

text \<open>
  C6, as stated: stripping the flavour twice is the same as stripping it once, for every
  string. It fails on a name with two \<open>@\<close>: \<^verbatim>\<open>rfind\<close> cuts at the last one, so the
  second stripping cuts again.
\<close>

theorem flavorname2port_not_idempotent:
  "flavorname2port (flavorname2port ''devel/bar@a@b'') \<noteq> flavorname2port ''devel/bar@a@b''"
  by code_simp

text \<open>
  C6, amended: for every string with at most one \<open>@\<close> (a package identifier with at
  most one flavour suffix), stripping the flavour is idempotent.
\<close>

theorem flavorname2port_idempotent:
  assumes "length (filter (\<lambda>x. x = CHR ''@'') x) \<le> 1"
  shows "flavorname2port (flavorname2port x) = flavorname2port x"
proof (cases "CHR ''@'' \<in> set x")
  case False
  then show ?thesis by (simp add: flavorname2port_no_flavor)
next
  case True
  from one_occurrence_decomp [OF assms True] obtain xs ys
    where x: "x = xs @ CHR ''@'' # ys"
      and xs: "CHR ''@'' \<notin> set xs" and ys: "CHR ''@'' \<notin> set ys"
    by (elim exE conjE)
  have "flavorname2port x = xs"
    unfolding x using ys by (rule flavorname2port_last_at)
  moreover have "flavorname2port xs = xs"
    using xs by (rule flavorname2port_no_flavor)
  ultimately show ?thesis by simp
qed

theorem flavorname2port_idempotent_witness:
  "length (filter (\<lambda>x. x = CHR ''@'') ''devel/bar@py39'') \<le> 1 \<and>
   flavorname2port (flavorname2port ''devel/bar@py39'') = flavorname2port ''devel/bar@py39''"
proof -
  have one: "length (filter (\<lambda>x. x = CHR ''@'') ''devel/bar@py39'') \<le> 1"
    by code_simp
  from one flavorname2port_idempotent [OF one] show ?thesis ..
qed

section \<open>The effects of the traversal\<close>

lemma add_node_config [simp]:
  "all_ports (add_node popen p s) = all_ports s"
  "with_pkg (add_node popen p s) = with_pkg s"
  "pkg (add_node popen p s) = pkg s"
  "abandoned (add_node popen p s) = abandoned s"
  "verbose (add_node popen p s) = verbose s"
  "url (add_node popen p s) = url s"
  "www (add_node popen p s) = www s"
  "suffix (add_node popen p s) = suffix s"
  "printed (add_node popen p s) = printed s"
  by (simp_all add: add_node_def Let_def)

lemma add_node_config2 [simp]:
  "flavor (add_node popen p s) = flavor s"
  "port (add_node popen p s) = port s"
  "localbase (add_node popen p s) = localbase s"
  "recursion (add_node popen p s) = recursion s"
  "build (add_node popen p s) = build s"
  "run (add_node popen p s) = run s"
  by (simp_all add: add_node_def Let_def)

lemma add_node_graph_body:
  "graph_body (add_node popen p s) =
     graph_body s @
     (if fullname2port p \<noteq> pkg s \<or> with_pkg s
      then [Node (fullname2port p)
              (if url s then Some (www s @ fullname2port (flavorname2port p) @ suffix s) else None)
              (fst (node_style popen (abandoned s) p)) (snd (node_style popen (abandoned s) p))]
      else [])"
  by (simp add: add_node_def Let_def node_style_def)

lemma add_node_procs:
  "procs (add_node popen p s) =
     procs s @ (if abandoned s then [MakeMaintainer (flavorname2port p)] else [])"
  by (simp add: add_node_def Let_def)

lemma depends_loop_Cons:
  "depends_loop rec popen ports da (d # lines) st =
     (let s = add_edge (fullname2port ports) (fullname2port d) (snd da) (visit ports st)
      in if d \<in> set (all_ports s) then depends_loop rec popen ports da lines s
         else (case rec d (visit d (add_node popen d s)) of
                 None \<Rightarrow> None
               | Some s' \<Rightarrow> depends_loop rec popen ports da lines s'))"
  by (simp add: visit_def add_edge_def Let_def)

lemma recurseports_Suc:
  "recurseports (Suc depth) popen ports fl da mr st =
     (if mr = 0 then Some st
      else depends_loop (\<lambda>d. recurseports depth popen d fl da (mr - 1)) popen ports da
             (popen (depends_cmd ports da fl))
             (spawn (depends_cmd ports da fl) (add_node popen ports (say ports st))))"
  by (simp add: say_def spawn_def depends_cmd_def Let_def)


text \<open>
  An invariant rule for the traversal. \<open>W\<close> holds the names that are expanded (the root
  and the names met for the first time), \<open>U\<close> the names that dependency lines may give.
\<close>

lemma depends_loop_invariant:
  assumes rec: "\<And>d s s'. d \<in> W \<Longrightarrow> P s \<Longrightarrow> rec d s = Some s' \<Longrightarrow> P s'"
    and fresh: "\<And>d s. d \<in> U \<Longrightarrow> P s \<Longrightarrow> d \<notin> set (all_ports s) \<Longrightarrow> d \<in> W"
    and node: "\<And>p s. p \<in> W \<Longrightarrow> P s \<Longrightarrow> P (add_node popen p s)"
    and visit: "\<And>p s. p \<in> W \<Longrightarrow> P s \<Longrightarrow> P (visit p s)"
    and edge: "\<And>a b s. a \<in> W \<Longrightarrow> b \<in> U \<Longrightarrow> P s \<Longrightarrow>
                 P (add_edge (fullname2port a) (fullname2port b) (snd da) s)"
    and ports: "ports \<in> W"
  shows "set lines \<subseteq> U \<Longrightarrow> P st \<Longrightarrow>
         depends_loop rec popen ports da lines st = Some st' \<Longrightarrow> P st'"
proof (induction lines arbitrary: st)
  case Nil
  then show ?case by simp
next
  case (Cons d lines)
  from Cons.prems have d: "d \<in> U" and lines: "set lines \<subseteq> U" by simp_all
  define s where "s = add_edge (fullname2port ports) (fullname2port d) (snd da) (visit ports st)"
  have Ps: "P s" unfolding s_def by (intro edge visit ports d Cons.prems(2))
  show ?case
  proof (cases "d \<in> set (all_ports s)")
    case True
    with Cons.prems(3) have "depends_loop rec popen ports da lines s = Some st'"
      by (simp add: depends_loop_Cons s_def [symmetric] del: depends_loop.simps)
    with Cons.IH [OF lines Ps] show ?thesis .
  next
    case False
    with Cons.prems(3) obtain s' where
      s': "rec d (visit d (add_node popen d s)) = Some s'"
      and rest: "depends_loop rec popen ports da lines s' = Some st'"
      by (simp add: depends_loop_Cons s_def [symmetric] del: depends_loop.simps
               split: option.splits)
    from d Ps False have dW: "d \<in> W" by (rule fresh)
    have "P (visit d (add_node popen d s))" by (intro visit node dW Ps)
    from rec [OF dW this s'] have "P s'" .
    from Cons.IH [OF lines this rest] show ?thesis .
  qed
qed

lemma recurseports_invariant:
  assumes closed: "\<And>p. p \<in> W \<Longrightarrow> set (popen (depends_cmd p da fl)) \<subseteq> U"
    and fresh: "\<And>d s. d \<in> U \<Longrightarrow> P s \<Longrightarrow> d \<notin> set (all_ports s) \<Longrightarrow> d \<in> W"
    and node: "\<And>p s. p \<in> W \<Longrightarrow> P s \<Longrightarrow> P (add_node popen p s)"
    and visit: "\<And>p s. p \<in> W \<Longrightarrow> P s \<Longrightarrow> P (visit p s)"
    and edge: "\<And>a b s. a \<in> W \<Longrightarrow> b \<in> U \<Longrightarrow> P s \<Longrightarrow>
                 P (add_edge (fullname2port a) (fullname2port b) (snd da) s)"
    and say: "\<And>p s. p \<in> W \<Longrightarrow> P s \<Longrightarrow> P (say p s)"
    and spawn: "\<And>p s. p \<in> W \<Longrightarrow> P s \<Longrightarrow> P (spawn (depends_cmd p da fl) s)"
  shows "ports \<in> W \<Longrightarrow> P st \<Longrightarrow>
         recurseports depth popen ports fl da mr st = Some st' \<Longrightarrow> P st'"
proof (induction depth arbitrary: ports mr st st')
  case 0
  then show ?case by simp
next
  case (Suc depth)
  show ?case
  proof (cases "mr = 0")
    case True
    with Suc.prems show ?thesis by simp
  next
    case False
    let ?s = "spawn (depends_cmd ports da fl) (add_node popen ports (say ports st))"
    have Ps: "P ?s" by (intro spawn node say Suc.prems(1,2))
    from False Suc.prems(3) have loop:
      "depends_loop (\<lambda>d. recurseports depth popen d fl da (mr - 1)) popen ports da
         (popen (depends_cmd ports da fl)) ?s = Some st'"
      by (simp add: recurseports_Suc del: recurseports.simps)
    show ?thesis
    proof (rule depends_loop_invariant [where P = P and U = U and W = W, OF _ fresh node visit
            edge Suc.prems(1) closed [OF Suc.prems(1)] Ps loop])
      fix d s s' assume "d \<in> W" "P s" "recurseports depth popen d fl da (mr - 1) s = Some s'"
      then show "P s'" by (rule Suc.IH)
    qed
  qed
qed

lemma config_eqD:
  assumes "config s = config t"
  shows "localbase s = localbase t" "flavor s = flavor t" "port s = port t"
    "with_pkg s = with_pkg t" "verbose s = verbose t" "recursion s = recursion t"
    "url s = url t" "www s = www t" "suffix s = suffix t" "pkg s = pkg t"
    "build s = build t" "run s = run t" "abandoned s = abandoned t"
  using assms by (simp_all add: config_def)

lemma config_steps [simp]:
  "config (add_node popen p s) = config s"
  "config (visit p s) = config s"
  "config (add_edge a b c s) = config s"
  "config (say p s) = config s"
  "config (spawn k s) = config s"
  by (simp_all add: config_def visit_def add_edge_def say_def spawn_def)

lemma visit_fields [simp]:
  "all_ports (visit p s) = all_ports s @ [p]"
  "graph_body (visit p s) = graph_body s"
  "procs (visit p s) = procs s"
  "printed (visit p s) = printed s"
  by (simp_all add: visit_def)

lemma add_edge_fields [simp]:
  "all_ports (add_edge a b c s) = all_ports s"
  "graph_body (add_edge a b c s) = graph_body s @ (if shown s b then [Edge a b c] else [])"
  "procs (add_edge a b c s) = procs s"
  "printed (add_edge a b c s) = printed s"
  by (simp_all add: add_edge_def shown_def)

lemma say_fields [simp]:
  "all_ports (say p s) = all_ports s"
  "graph_body (say p s) = graph_body s"
  "procs (say p s) = procs s"
  "printed (say p s) = printed s @ (if verbose s then [p] else [])"
  by (simp_all add: say_def)

lemma spawn_fields [simp]:
  "all_ports (spawn k s) = all_ports s"
  "graph_body (spawn k s) = graph_body s"
  "procs (spawn k s) = procs s @ [k]"
  "printed (spawn k s) = printed s"
  by (simp_all add: spawn_def)

lemma add_node_body:
  "graph_body (add_node popen p s) =
     graph_body s @ (if shown s (fullname2port p) then [node_stmt popen s p] else [])"
  by (simp add: add_node_graph_body shown_def node_stmt_def)

lemma trace_refl: "trace popen U da fl st st"
  by (simp add: trace_def)

lemma shown_config: "config s = config st \<Longrightarrow> shown s n = shown st n"
  by (simp add: shown_def config_def)

lemma node_stmt_config: "config s = config st \<Longrightarrow> node_stmt popen s p = node_stmt popen st p"
  by (simp add: node_stmt_def config_def)

lemma trace_add_node:
  assumes "p \<in> U" "trace popen U da fl st s"
  shows "trace popen U da fl st (add_node popen p s)"
proof -
  from assms(2) have c: "config s = config st" by (simp add: trace_def)
  have "emitted popen st U (snd da) (node_stmt popen st p)" if "shown st (fullname2port p)"
    using that assms(1) by (auto simp add: emitted_def)
  moreover have "started st U da fl (MakeMaintainer (flavorname2port p))" if "abandoned st"
    using that assms(1) by (auto simp add: started_def)
  ultimately show ?thesis
    using assms(2) config_eqD(13) [OF c]
    by (auto simp add: trace_def add_node_body add_node_procs shown_config [OF c]
          node_stmt_config [OF c])
qed

lemma trace_visit:
  "p \<in> U \<Longrightarrow> trace popen U da fl st s \<Longrightarrow> trace popen U da fl st (visit p s)"
  by (auto simp add: trace_def)

lemma trace_add_edge:
  assumes "a \<in> U" "b \<in> U" "trace popen U da fl st s"
  shows "trace popen U da fl st (add_edge (fullname2port a) (fullname2port b) (snd da) s)"
proof -
  from assms(3) have c: "config s = config st" by (simp add: trace_def)
  have "emitted popen st U (snd da) (Edge (fullname2port a) (fullname2port b) (snd da))"
    if "shown st (fullname2port b)"
    using that assms(1,2) by (auto simp add: emitted_def)
  then show ?thesis
    using assms(3) by (auto simp add: trace_def shown_config [OF c])
qed

lemma trace_say:
  "trace popen U da fl st s \<Longrightarrow> trace popen U da fl st (say p s)"
  by (auto simp add: trace_def)

lemma trace_spawn:
  assumes "p \<in> U" "trace popen U da fl st s"
  shows "trace popen U da fl st (spawn (depends_cmd p da fl) s)"
proof -
  have "started st U da fl (depends_cmd p da fl)"
    using assms(1) by (auto simp add: started_def)
  then show ?thesis using assms(2) by (auto simp add: trace_def)
qed

lemma recurseports_trace:
  assumes closed: "\<And>p. p \<in> U \<Longrightarrow> set (popen (depends_cmd p da fl)) \<subseteq> U"
    and "ports \<in> U" "recurseports depth popen ports fl da mr st = Some st'"
  shows "trace popen U da fl st st'"
  using closed _ _ _ _ _ _ assms(2) trace_refl assms(3)
proof (rule recurseports_invariant [where P = "trace popen U da fl st" and U = U and W = U])
qed (simp_all add: trace_add_node trace_visit trace_add_edge trace_say trace_spawn)

lemma build_graph_unfold:
  "build_graph depth popen st =
     (case (if build st
            then recurseports depth popen (root st) (flavor st) (''build'', ''#009999'')
                   (recursion st) (flavored st)
            else Some (flavored st)) of
        None \<Rightarrow> None
      | Some st1 \<Rightarrow>
          (if run st1
           then recurseports depth popen (os_path_join (localbase st1) (port st1)) (flavor st1)
                  (''run'', ''#990000'') (recursion st1) st1
           else Some st1))"
  by (simp add: build_graph_def root_def flavored_def Let_def)

lemma build_graph_passes:
  assumes "build_graph depth popen st = Some st'"
  obtains st1 where
    "if build st
     then recurseports depth popen (root st) (flavor st) (''build'', ''#009999'') (recursion st)
            (flavored st) = Some st1
     else st1 = flavored st"
    "if run st1
     then recurseports depth popen (os_path_join (localbase st1) (port st1)) (flavor st1)
            (''run'', ''#990000'') (recursion st1) st1 = Some st'
     else st' = st1"
  using assms
  by (auto simp add: build_graph_def root_def flavored_def Let_def split: if_splits option.splits)

lemma config_flavored:
  "url (flavored st) = url st" "www (flavored st) = www st" "suffix (flavored st) = suffix st"
  "abandoned (flavored st) = abandoned st" "pkg (flavored st) = pkg st"
  "with_pkg (flavored st) = with_pkg st" "flavor (flavored st) = flavor st"
  "localbase (flavored st) = localbase st" "recursion (flavored st) = recursion st"
  "build (flavored st) = build st" "run (flavored st) = run st"
  "verbose (flavored st) = verbose st"
  "graph_body (flavored st) = graph_body st" "procs (flavored st) = procs st"
  "all_ports (flavored st) = all_ports st" "printed (flavored st) = printed st"
  by (simp_all add: flavored_def)

lemma node_stmt_flavored: "node_stmt popen (flavored st) p = node_stmt popen st p"
  by (simp add: node_stmt_def config_flavored)

lemma shown_flavored: "shown (flavored st) n = shown st n"
  by (simp add: shown_def config_flavored)

lemma recurseports_trace_UNIV:
  "recurseports depth popen ports fl da mr st = Some st' \<Longrightarrow> trace popen UNIV da fl st st'"
  by (rule recurseports_trace [where U = UNIV]) simp_all

lemma trace_styled:
  assumes "trace popen UNIV da fl st s"
  obtains G K where "graph_body s = graph_body st @ G" "procs s = procs st @ K"
    "styled popen st G K" "config s = config st"
proof -
  from assms obtain G K where G: "graph_body s = graph_body st @ G"
    and em: "\<forall>x\<in>set G. emitted popen st UNIV (snd da) x"
    and K: "procs s = procs st @ K" and st: "\<forall>k\<in>set K. started st UNIV da fl k"
    and c: "config s = config st"
    by (auto simp add: trace_def)
  have "styled popen st G K"
    unfolding styled_def
  proof (intro conjI allI impI)
    fix n u c s' assume "Node n u c s' \<in> set G"
    with em have "emitted popen st UNIV (snd da) (Node n u c s')" by simp
    then show "\<exists>p. Node n u c s' = node_stmt popen st p" by (auto simp add: emitted_def)
  next
    fix d assume na: "\<not> abandoned st"
    show "MakeMaintainer d \<notin> set K"
    proof
      assume "MakeMaintainer d \<in> set K"
      with st have "started st UNIV da fl (MakeMaintainer d)" by simp
      with na show False by (auto simp add: started_def depends_cmd_def)
    qed
  qed
  from G K this c show ?thesis by (rule that)
qed

lemma styled_append:
  "styled popen st G K \<Longrightarrow> styled popen st G' K' \<Longrightarrow> styled popen st (G @ G') (K @ K')"
  by (auto simp add: styled_def)

lemma styled_Nil: "styled popen st [] []"
  by (simp add: styled_def)

lemma styled_config:
  assumes "config s = config st"
  shows "styled popen s G K = styled popen st G K"
  unfolding styled_def node_stmt_config [OF assms] config_eqD(13) [OF assms] ..

lemma styled_flavored: "styled popen (flavored st) G K = styled popen st G K"
  by (simp add: styled_def node_stmt_flavored config_flavored)

lemma build_graph_styled:
  assumes "build_graph depth popen st = Some st'"
  shows "\<exists>G K. graph_body st' = graph_body st @ G \<and> procs st' = procs st @ K \<and>
           styled popen st G K"
proof -
  from assms obtain st1 where
    p1: "if build st
         then recurseports depth popen (root st) (flavor st) (''build'', ''#009999'')
                (recursion st) (flavored st) = Some st1
         else st1 = flavored st"
    and p2: "if run st1
         then recurseports depth popen (os_path_join (localbase st1) (port st1)) (flavor st1)
                (''run'', ''#990000'') (recursion st1) st1 = Some st'
         else st' = st1"
    by (rule build_graph_passes)
  have "\<exists>G K. graph_body st1 = graph_body st @ G \<and> procs st1 = procs st @ K \<and>
           styled popen st G K \<and> config st1 = config (flavored st)"
  proof (cases "build st")
    case True
    with p1 have "trace popen UNIV (''build'', ''#009999'') (flavor st) (flavored st) st1"
      by (simp add: recurseports_trace_UNIV)
    then show ?thesis
      by (rule trace_styled) (auto simp add: config_flavored styled_flavored)
  next
    case False
    with p1 show ?thesis by (simp add: config_flavored styled_Nil)
  qed
  then obtain G K where 1: "graph_body st1 = graph_body st @ G" "procs st1 = procs st @ K"
    "styled popen st G K" and c1: "config st1 = config (flavored st)" by blast
  have "\<exists>G' K'. graph_body st' = graph_body st1 @ G' \<and> procs st' = procs st1 @ K' \<and>
           styled popen st1 G' K'"
  proof (cases "run st1")
    case True
    with p2 have "trace popen UNIV (''run'', ''#990000'') (flavor st1) st1 st'"
      by (simp add: recurseports_trace_UNIV)
    then show ?thesis by (rule trace_styled) auto
  next
    case False
    with p2 show ?thesis by (simp add: styled_Nil)
  qed
  then obtain G' K' where 2: "graph_body st' = graph_body st1 @ G'"
    "procs st' = procs st1 @ K'" "styled popen st1 G' K'" by blast
  from 2(3) have "styled popen st G' K'"
    by (simp add: styled_config [OF c1] styled_flavored)
  with 1 2 have "graph_body st' = graph_body st @ (G @ G') \<and> procs st' = procs st @ (K @ K') \<and>
     styled popen st (G @ G') (K @ K')"
    by (simp add: styled_append)
  then show ?thesis by blast
qed

lemma depends_loop_trace:
  assumes closed: "\<And>p. p \<in> U \<Longrightarrow> set (popen (depends_cmd p da fl)) \<subseteq> U"
    and "ports \<in> U" "set lines \<subseteq> U" "trace popen U da fl st0 st"
    and "depends_loop (\<lambda>x. recurseports depth popen x fl da mr) popen ports da lines st = Some st'"
  shows "trace popen U da fl st0 st'"
proof (rule depends_loop_invariant [where P = "trace popen U da fl st0" and U = U and W = U,
      OF _ _ _ _ _ assms(2,3,4,5)])
  fix d s s'
  assume d: "d \<in> U" "trace popen U da fl st0 s"
    "recurseports depth popen d fl da mr s = Some s'"
  show "trace popen U da fl st0 s'"
    by (rule recurseports_invariant [where P = "trace popen U da fl st0" and U = U and W = U,
          OF closed _ _ _ _ _ _ d])
      (simp_all add: trace_add_node trace_visit trace_add_edge trace_say trace_spawn)
qed (simp_all add: trace_add_node trace_visit trace_add_edge)

lemma depends_loop_extends:
  assumes "depends_loop (\<lambda>x. recurseports depth popen x fl da mr) popen ports da lines st = Some st'"
  shows "trace popen UNIV da fl st st'"
  by (rule depends_loop_trace [where U = UNIV, OF _ _ _ trace_refl assms]) simp_all

lemma traceD:
  assumes "trace popen U da fl st s"
  shows "config s = config st"
    and "\<exists>G. graph_body s = graph_body st @ G"
    and "\<exists>K. procs s = procs st @ K"
    and "\<exists>A. all_ports s = all_ports st @ A"
    and "set (all_ports st) \<subseteq> set (all_ports s)"
  using assms by (auto simp add: trace_def)

lemma depends_loop_append:
  "depends_loop rec popen ports da (xs @ ys) st =
     (case depends_loop rec popen ports da xs st of
        None \<Rightarrow> None
      | Some s \<Rightarrow> depends_loop rec popen ports da ys s)"
proof (induction xs arbitrary: st)
  case Nil
  show ?case by simp
next
  case (Cons x xs)
  show ?case
    by (simp only: append_Cons depends_loop_Cons Let_def Cons.IH split: option.split if_split)
       simp
qed


lemma depends_loop_step_edge:
  assumes "depends_loop (\<lambda>x. recurseports depth popen x fl da mr) popen ports da
             (d # lines) st = Some st'"
    and "shown st (fullname2port d)"
  shows "\<exists>G. graph_body st' = graph_body st @
            Edge (fullname2port ports) (fullname2port d) (snd da) # G"
proof -
  let ?rec = "\<lambda>x. recurseports depth popen x fl da mr"
  define s where "s = add_edge (fullname2port ports) (fullname2port d) (snd da) (visit ports st)"
  have "shown (visit ports st) (fullname2port d)"
    using assms(2) by (simp add: shown_def visit_def)
  then have body: "graph_body s =
      graph_body st @ [Edge (fullname2port ports) (fullname2port d) (snd da)]"
    by (simp add: s_def)
  have "\<exists>G. graph_body st' = graph_body s @ G"
  proof (cases "d \<in> set (all_ports s)")
    case True
    with assms have "depends_loop ?rec popen ports da lines s = Some st'"
      by (simp add: depends_loop_Cons s_def [symmetric] del: depends_loop.simps)
    from traceD(2) [OF depends_loop_extends [OF this]] show ?thesis .
  next
    case False
    with assms obtain s2 where
      call: "?rec d (visit d (add_node popen d s)) = Some s2"
      and rest: "depends_loop ?rec popen ports da lines s2 = Some st'"
      by (simp add: depends_loop_Cons s_def [symmetric] del: depends_loop.simps
            split: option.splits)
    from traceD(2) [OF recurseports_trace_UNIV [OF call]] obtain G1
      where "graph_body s2 = graph_body (visit d (add_node popen d s)) @ G1" ..
    moreover from traceD(2) [OF depends_loop_extends [OF rest]] obtain G2
      where "graph_body st' = graph_body s2 @ G2" ..
    ultimately show ?thesis by (simp add: add_node_body)
  qed
  with body show ?thesis by auto
qed

section \<open>Termination\<close>

lemma expansions_steps [simp]:
  "expansions (add_node popen p s) = expansions s"
  "expansions (visit p s) = expansions s"
  "expansions (add_edge a b c s) = expansions s"
  "expansions (say p s) = expansions s"
  "expansions (spawn (depends_cmd p da fl) s) = Suc (expansions s)"
  by (simp_all add: expansions_def add_node_procs depends_cmd_def)

lemma unvisited_mono:
  assumes "finite U" "set (all_ports s) \<subseteq> set (all_ports s')"
  shows "unvisited U p s' \<le> unvisited U p s"
  unfolding unvisited_def using assms by (intro card_mono) auto

lemma unvisited_steps [simp]:
  "unvisited U q (add_node popen p s) = unvisited U q s"
  "unvisited U q (add_edge a b c s) = unvisited U q s"
  "unvisited U q (say p s) = unvisited U q s"
  "unvisited U q (spawn k s) = unvisited U q s"
  by (simp_all add: unvisited_def)

lemma unvisited_visit_self [simp]: "unvisited U p (visit p s) = unvisited U p s"
proof -
  have "U - set (all_ports (visit p s)) - {p} = U - set (all_ports s) - {p}" by auto
  then show ?thesis by (simp only: unvisited_def)
qed

lemma unvisited_visited:
  assumes "p \<in> set (all_ports s)" "q \<in> set (all_ports s)"
  shows "unvisited U p s = unvisited U q s"
proof -
  from assms have "U - set (all_ports s) - {p} = U - set (all_ports s) - {q}" by auto
  then show ?thesis by (simp only: unvisited_def)
qed

lemma unvisited_fresh:
  assumes "finite U" "d \<in> U" "d \<notin> set (all_ports s)" "p \<in> set (all_ports s)"
  shows "unvisited U d (visit d s) < unvisited U p s"
proof -
  have "U - set (all_ports (visit d s)) - {d} \<subset> U - set (all_ports s) - {p}"
    using assms(2,3,4) by auto
  moreover have "finite (U - set (all_ports s) - {p})" using assms(1) by simp
  ultimately show ?thesis unfolding unvisited_def by (rule psubset_card_mono [rotated])
qed

lemma depends_loop_terminates:
  assumes fin: "finite U" and ports: "ports \<in> U"
    and rec: "\<And>d s. d \<in> U \<Longrightarrow> unvisited U d s < depth \<Longrightarrow>
       \<exists>s'. rec d s = Some s' \<and> set (all_ports s) \<subseteq> set (all_ports s') \<and>
            expansions s' + unvisited U d s' \<le> Suc (expansions s + unvisited U d s)"
  shows "set lines \<subseteq> U \<Longrightarrow> unvisited U ports st \<le> depth \<Longrightarrow>
         \<exists>st'. depends_loop rec popen ports da lines st = Some st' \<and>
               set (all_ports st) \<subseteq> set (all_ports st') \<and>
               expansions st' + unvisited U ports st' \<le> expansions st + unvisited U ports st"
proof (induction lines arbitrary: st)
  case Nil
  show ?case by simp
next
  case (Cons d lines)
  from Cons.prems have d: "d \<in> U" and lines: "set lines \<subseteq> U" by simp_all
  define s where "s = add_edge (fullname2port ports) (fullname2port d) (snd da) (visit ports st)"
  have s: "all_ports s = all_ports st @ [ports]" "expansions s = expansions st"
    "unvisited U ports s = unvisited U ports st"
    by (simp_all add: s_def)
  show ?case
  proof (cases "d \<in> set (all_ports s)")
    case True
    from Cons.prems(2) have "unvisited U ports s \<le> depth" by (simp add: s)
    from Cons.IH [OF lines this] obtain st' where
      "depends_loop rec popen ports da lines s = Some st'"
      "set (all_ports s) \<subseteq> set (all_ports st')"
      "expansions st' + unvisited U ports st' \<le> expansions s + unvisited U ports s"
      by blast
    with True show ?thesis
      by (simp add: depends_loop_Cons s_def [symmetric] s del: depends_loop.simps)
  next
    case False
    define s2 where "s2 = visit d (add_node popen d s)"
    have ports_in: "ports \<in> set (all_ports (add_node popen d s))" by (simp add: s)
    from False have "d \<notin> set (all_ports (add_node popen d s))" by simp
    from unvisited_fresh [OF fin d this ports_in]
    have less: "unvisited U d s2 < unvisited U ports s" by (simp add: s2_def)
    with Cons.prems(2) have "unvisited U d s2 < depth" by (simp add: s)
    from rec [OF d this] obtain s3 where
      call: "rec d s2 = Some s3" and mono3: "set (all_ports s2) \<subseteq> set (all_ports s3)"
      and bound3: "expansions s3 + unvisited U d s3 \<le> Suc (expansions s2 + unvisited U d s2)"
      by blast
    have in3: "d \<in> set (all_ports s3)" "ports \<in> set (all_ports s3)"
      using mono3 by (auto simp add: s2_def s)
    have e2: "expansions s2 = expansions st" by (simp add: s2_def s)
    from bound3 less have step: "expansions s3 + unvisited U ports s3 \<le>
        expansions st + unvisited U ports st"
      by (simp add: unvisited_visited [OF in3] e2 s)
    with Cons.prems(2) have "unvisited U ports s3 \<le> unvisited U ports st"
      using unvisited_mono [OF fin, of st s3 ports] mono3 by (auto simp add: s2_def s)
    with Cons.prems(2) have "unvisited U ports s3 \<le> depth" by simp
    from Cons.IH [OF lines this] obtain st' where
      rest: "depends_loop rec popen ports da lines s3 = Some st'"
      and mono: "set (all_ports s3) \<subseteq> set (all_ports st')"
      and bound: "expansions st' + unvisited U ports st' \<le> expansions s3 + unvisited U ports s3"
      by blast
    from False call rest have "depends_loop rec popen ports da (d # lines) st = Some st'"
      by (simp add: depends_loop_Cons s_def [symmetric] s2_def del: depends_loop.simps)
    moreover from mono mono3 have "set (all_ports st) \<subseteq> set (all_ports st')"
      by (auto simp add: s2_def s)
    moreover from bound step have
      "expansions st' + unvisited U ports st' \<le> expansions st + unvisited U ports st"
      by simp
    ultimately show ?thesis by blast
  qed
qed

lemma recurseports_terminates:
  assumes fin: "finite U"
    and closed: "\<And>p. p \<in> U \<Longrightarrow> set (popen (depends_cmd p da fl)) \<subseteq> U"
  shows "ports \<in> U \<Longrightarrow> unvisited U ports st < depth \<Longrightarrow>
         \<exists>st'. recurseports depth popen ports fl da mr st = Some st' \<and>
               set (all_ports st) \<subseteq> set (all_ports st') \<and>
               expansions st' + unvisited U ports st' \<le>
                 Suc (expansions st + unvisited U ports st)"
proof (induction depth arbitrary: ports mr st)
  case 0
  then show ?case by simp
next
  case (Suc depth)
  show ?case
  proof (cases "mr = 0")
    case True
    then show ?thesis by simp
  next
    case False
    define s where "s = spawn (depends_cmd ports da fl) (add_node popen ports (say ports st))"
    have s: "all_ports s = all_ports st" "expansions s = Suc (expansions st)"
      "unvisited U ports s = unvisited U ports st"
      by (simp_all add: s_def)
    from Suc.prems(2) have "unvisited U ports s \<le> depth" by (simp add: s)
    from depends_loop_terminates [where rec = "\<lambda>d. recurseports depth popen d fl da (mr - 1)",
        OF fin Suc.prems(1) Suc.IH closed [OF Suc.prems(1)] this]
    obtain st' where
      "depends_loop (\<lambda>d. recurseports depth popen d fl da (mr - 1)) popen ports da
         (popen (depends_cmd ports da fl)) s = Some st'"
      "set (all_ports s) \<subseteq> set (all_ports st')"
      "expansions st' + unvisited U ports st' \<le> expansions s + unvisited U ports s"
      by blast
    with False show ?thesis
      by (simp add: recurseports_Suc s_def [symmetric] s del: recurseports.simps)
  qed
qed

lemma unvisited_less_card:
  assumes "finite U" "p \<in> U"
  shows "unvisited U p s < card U"
proof -
  have "U - set (all_ports s) - {p} \<subset> U" using assms(2) by auto
  with assms(1) show ?thesis unfolding unvisited_def by (rule psubset_card_mono)
qed

lemma recurseports_total:
  assumes "finite U" and "ports \<in> U"
    and "\<forall>p\<in>U. set (popen (depends_cmd p da fl)) \<subseteq> U"
    and "card U \<le> depth"
  shows "\<exists>st'. recurseports depth popen ports fl da mr st = Some st'"
proof -
  have closed: "set (popen (depends_cmd p da fl)) \<subseteq> U" if "p \<in> U" for p
    using assms(3) that by simp
  from unvisited_less_card [OF assms(1,2)] assms(4) have "unvisited U ports st < depth"
    by (rule less_le_trans)
  from recurseports_terminates [where U = U and popen = popen and da = da
      and fl = fl, OF assms(1) closed assms(2) this]
  show ?thesis by blast
qed

text \<open>
  C1: let \<open>U\<close> be a finite set of names that contains the root and, with each name, the
  dependency lines the oracle gives for it (cycles allowed). Then the traversal from the
  root returns, with any depth budget and so with \<open>-1\<close>, as soon as the bound on the
  nesting of calls is at least the number of names; and it starts at most one
  dependency-list command for each name of \<open>U\<close>.
\<close>

theorem traversal_terminates:
  assumes "finite U" and "ports \<in> U"
    and "\<forall>p\<in>U. set (popen (MakeDependsList (flavorname2port p) kind
                        (if truthy fl then fl else None))) \<subseteq> U"
    and "card U \<le> depth"
  shows "\<exists>st'. recurseports depth popen ports fl (kind, color) max_recurse st = Some st' \<and>
               expansions st' \<le> expansions st + card U"
proof -
  have closed: "set (popen (depends_cmd p (kind, color) fl)) \<subseteq> U" if "p \<in> U" for p
    using assms(3) that by (simp add: depends_cmd_def)
  from unvisited_less_card [OF assms(1,2)] have less: "unvisited U ports st < card U" .
  with assms(4) have "unvisited U ports st < depth" by simp
  from recurseports_terminates [where U = U and popen = popen and da = "(kind, color)"
      and fl = fl, OF assms(1) closed assms(2) this]
  obtain st' where
    "recurseports depth popen ports fl (kind, color) max_recurse st = Some st'"
    "expansions st' + unvisited U ports st' \<le> Suc (expansions st + unvisited U ports st)"
    by blast
  with less show ?thesis by (intro exI [of _ st']) simp
qed

theorem traversal_terminates_witness:
  "finite (set example_ports) \<and> ''/usr/ports/editors/foo'' \<in> set example_ports \<and>
   list_all (\<lambda>p. set (example_popen (MakeDependsList (flavorname2port p) ''build''
                        (if truthy None then None else None))) \<subseteq> set example_ports)
     example_ports \<and>
   card (set example_ports) \<le> 5 \<and>
   (\<exists>st'. recurseports 5 example_popen ''/usr/ports/editors/foo'' None (''build'', ''#009999'')
             (- 1) (example_portgraph False True (- 1)) = Some st' \<and>
          expansions st' \<le> expansions (example_portgraph False True (- 1)) +
            card (set example_ports))"
proof -
  have a: "finite (set example_ports)" by simp
  have b: "''/usr/ports/editors/foo'' \<in> set example_ports" by code_simp
  have c: "list_all (\<lambda>p. set (example_popen (MakeDependsList (flavorname2port p) ''build''
                        (if truthy None then None else None))) \<subseteq> set example_ports)
     example_ports" by code_simp
  then have c': "\<forall>p\<in>set example_ports.
      set (example_popen (MakeDependsList (flavorname2port p) ''build''
                        (if truthy None then None else None))) \<subseteq> set example_ports"
    by (simp only: list_all_iff)
  have d: "card (set example_ports) \<le> 5" by code_simp
  from a b c d traversal_terminates [OF a b c' d, of "''#009999''" "- 1"
      "example_portgraph False True (- 1)"]
  show ?thesis by (intro conjI)
qed

section \<open>Node styling\<close>

text \<open>
  C8: every node statement that \<open>build_graph\<close> adds is black and filled, unless the
  maintainer check is enabled and the maintainer command for the flavour-stripped name of
  its port answers \<^verbatim>\<open>ports@FreeBSD.org\<close>: then it is red and bold. With the check
  disabled, no maintainer command is started at all.
\<close>

theorem maintainer_check:
  assumes "build_graph depth popen st = Some st'"
  shows "\<exists>G K. graph_body st' = graph_body st @ G \<and> procs st' = procs st @ K \<and>
           (\<forall>n u c s. Node n u c s \<in> set G \<longrightarrow>
              (\<exists>p. n = fullname2port p \<and>
                   (c, s) =
                     (if abandoned st \<and>
                         readline (popen (MakeMaintainer (flavorname2port p))) =
                           ''ports@FreeBSD.org''
                      then (''red'', ''bold'') else (''black'', ''filled'')))) \<and>
           (\<not> abandoned st \<longrightarrow> (\<forall>d. MakeMaintainer d \<notin> set K))"
proof -
  from build_graph_styled [OF assms] obtain G K where
    G: "graph_body st' = graph_body st @ G" and K: "procs st' = procs st @ K"
    and s: "styled popen st G K" by blast
  have "\<exists>p. n = fullname2port p \<and>
             (c, s') =
               (if abandoned st \<and>
                   readline (popen (MakeMaintainer (flavorname2port p))) = ''ports@FreeBSD.org''
                then (''red'', ''bold'') else (''black'', ''filled''))"
    if "Node n u c s' \<in> set G" for n u c s'
  proof -
    from s that obtain p where "Node n u c s' = node_stmt popen st p"
      unfolding styled_def by blast
    then have "n = fullname2port p \<and> (c, s') = node_style popen (abandoned st) p"
      by (simp add: node_stmt_def)
    then show ?thesis unfolding node_style_def by (intro exI [of _ p])
  qed
  moreover from s have "\<not> abandoned st \<longrightarrow> (\<forall>d. MakeMaintainer d \<notin> set K)"
    by (simp add: styled_def)
  ultimately show ?thesis using G K by blast
qed


theorem maintainer_check_witness:
  "\<exists>st'. build_graph 4 example_popen (example_portgraph False True (- 1)) = Some st' \<and>
     Node ''devel/bar'' None ''red'' ''bold'' \<in> set (graph_body st') \<and>
     (\<exists>G K. graph_body st' = graph_body (example_portgraph False True (- 1)) @ G \<and>
        procs st' = procs (example_portgraph False True (- 1)) @ K \<and>
        (\<forall>n u c s. Node n u c s \<in> set G \<longrightarrow>
           (\<exists>p. n = fullname2port p \<and>
                (c, s) =
                  (if abandoned (example_portgraph False True (- 1)) \<and>
                      readline (example_popen (MakeMaintainer (flavorname2port p))) =
                        ''ports@FreeBSD.org''
                   then (''red'', ''bold'') else (''black'', ''filled'')))) \<and>
        (\<not> abandoned (example_portgraph False True (- 1)) \<longrightarrow>
           (\<forall>d. MakeMaintainer d \<notin> set K)))"
proof -
  let ?st = "example_portgraph False True (- 1)"
  have "build_graph 4 example_popen ?st \<noteq> None" by code_simp
  then obtain st' where h: "build_graph 4 example_popen ?st = Some st'"
    by (cases "build_graph 4 example_popen ?st") simp_all
  have "Node ''devel/bar'' None ''red'' ''bold'' \<in>
          set (graph_body (the (build_graph 4 example_popen ?st)))"
    by code_simp
  with h have n: "Node ''devel/bar'' None ''red'' ''bold'' \<in> set (graph_body st')" by simp
  from h n maintainer_check [OF h] show ?thesis by (intro exI [of _ st'] conjI)
qed

subsection \<open>How often a name is expanded\<close>

text \<open>
  In a set \<open>U\<close> of names closed under the dependency lines, where no other name has the
  flavour-stripped form of \<open>d\<close>, the dependency-list command of \<open>d\<close> is started once
  when a call for \<open>d\<close> passes the budget test, and never by a call or a loop that finds
  \<open>d\<close> in \<open>all_ports\<close>.
\<close>

lemma times_started_steps [simp]:
  "times_started (depends_cmd d da fl) (add_node popen p s) = times_started (depends_cmd d da fl) s"
  "times_started c (visit p s) = times_started c s"
  "times_started c (add_edge a b col s) = times_started c s"
  "times_started c (say p s) = times_started c s"
  "times_started c (spawn k s) = times_started c s + (if k = c then 1 else 0)"
  by (simp_all add: times_started_def add_node_procs depends_cmd_def)


lemma depends_loop_once:
  fixes d da fl
  defines "n \<equiv> times_started (depends_cmd d da fl)"
  assumes rec: "\<And>x s s'. x \<in> U \<Longrightarrow> rec x s = Some s' \<Longrightarrow>
        set (all_ports s) \<subseteq> set (all_ports s') \<and>
        (x \<noteq> d \<and> d \<in> set (all_ports s) \<longrightarrow> n s' = n s) \<and>
        n s' \<le> n s + 1 \<and>
        (x \<noteq> d \<and> n s' \<noteq> n s \<longrightarrow> d \<in> set (all_ports s'))"
  shows "set lines \<subseteq> U \<Longrightarrow> depends_loop rec popen ports da lines st = Some st' \<Longrightarrow>
        set (all_ports st) \<subseteq> set (all_ports st') \<and>
        (d \<in> set (all_ports st) \<or> ports = d \<longrightarrow> n st' = n st) \<and>
        n st' \<le> n st + 1 \<and>
        (n st' \<noteq> n st \<longrightarrow> d \<in> set (all_ports st'))"
proof (induction lines arbitrary: st)
  case Nil
  then show ?case by simp
next
  case (Cons x lines)
  from Cons.prems have x: "x \<in> U" and lines: "set lines \<subseteq> U" by simp_all
  define s1 where "s1 = add_edge (fullname2port ports) (fullname2port x) (snd da) (visit ports st)"
  have s1: "all_ports s1 = all_ports st @ [ports]" "n s1 = n st"
    by (simp_all add: s1_def n_def)
  show ?case
  proof (cases "x \<in> set (all_ports s1)")
    case True
    with Cons.prems(2) have "depends_loop rec popen ports da lines s1 = Some st'"
      by (simp add: depends_loop_Cons s1_def [symmetric] del: depends_loop.simps)
    from Cons.IH [OF lines this] show ?thesis by (auto simp add: s1)
  next
    case False
    define s2 where "s2 = visit x (add_node popen x s1)"
    have s2: "all_ports s2 = all_ports st @ [ports, x]" "n s2 = n st"
      using s1 by (simp_all add: s2_def n_def)
    from False Cons.prems(2) obtain s3 where
      call: "rec x s2 = Some s3" and rest: "depends_loop rec popen ports da lines s3 = Some st'"
      by (simp add: depends_loop_Cons s1_def [symmetric] s2_def del: depends_loop.simps
            split: option.splits)
    note r = rec [OF x call]
    note l = Cons.IH [OF lines rest]
    from r have mono3: "set (all_ports s2) \<subseteq> set (all_ports s3)" by simp
    show ?thesis
    proof (cases "x = d")
      case True
      with mono3 have d3: "d \<in> set (all_ports s3)" by (auto simp add: s2)
      with l have "n st' = n s3" by simp
      moreover from l d3 have "d \<in> set (all_ports st')" by auto
      moreover from True False have "d \<notin> set (all_ports st) \<and> ports \<noteq> d"
        by (auto simp add: s1)
      ultimately show ?thesis using r l mono3 by (auto simp add: s2)
    next
      case xd: False
      show ?thesis
      proof (cases "d \<in> set (all_ports s2)")
        case True
        with r xd have "n s3 = n s2" by simp
        moreover from True mono3 have "d \<in> set (all_ports s3)" by auto
        ultimately show ?thesis using l mono3 by (auto simp add: s2)
      next
        case nd: False
        then have "d \<notin> set (all_ports st)" "ports \<noteq> d" by (auto simp add: s2)
        moreover have "n st' \<le> n st + 1 \<and> (n st' \<noteq> n st \<longrightarrow> d \<in> set (all_ports st'))"
        proof (cases "n s3 = n s2")
          case True
          with l show ?thesis by (auto simp add: s2)
        next
          case False
          with r xd have d3: "d \<in> set (all_ports s3)" by simp
          with l have "n st' = n s3" "d \<in> set (all_ports st')" by auto
          with r show ?thesis by (auto simp add: s2)
        qed
        ultimately show ?thesis using l mono3 by (auto simp add: s2)
      qed
    qed
  qed
qed

lemma depends_cmd_eq:
  "depends_cmd p da fl = depends_cmd d da fl \<longleftrightarrow> flavorname2port p = flavorname2port d"
  by (simp add: depends_cmd_def)

lemma recurseports_once:
  fixes d da fl
  defines "n \<equiv> times_started (depends_cmd d da fl)"
  assumes closed: "\<And>p. p \<in> U \<Longrightarrow> set (popen (depends_cmd p da fl)) \<subseteq> U"
    and uniq: "\<And>p. p \<in> U \<Longrightarrow> flavorname2port p = flavorname2port d \<Longrightarrow> p = d"
  shows "p \<in> U \<Longrightarrow> recurseports depth popen p fl da b st = Some st' \<Longrightarrow>
     set (all_ports st) \<subseteq> set (all_ports st') \<and>
     (p = d \<longrightarrow> n st' = n st + (if b \<noteq> 0 then 1 else 0)) \<and>
     (p \<noteq> d \<and> d \<in> set (all_ports st) \<longrightarrow> n st' = n st) \<and>
     n st' \<le> n st + 1 \<and>
     (p \<noteq> d \<and> n st' \<noteq> n st \<longrightarrow> d \<in> set (all_ports st'))"
proof (induction depth arbitrary: p b st st')
  case 0
  then show ?case by simp
next
  case (Suc depth)
  show ?case
  proof (cases "b = 0")
    case True
    with Suc.prems show ?thesis by simp
  next
    case False
    define s0 where "s0 = spawn (depends_cmd p da fl) (add_node popen p (say p st))"
    have same: "depends_cmd p da fl = depends_cmd d da fl \<longleftrightarrow> p = d"
      using uniq [OF Suc.prems(1)] by (auto simp add: depends_cmd_eq)
    have s0: "all_ports s0 = all_ports st" "n s0 = n st + (if p = d then 1 else 0)"
      by (simp_all add: s0_def n_def same)
    from False Suc.prems(2) have loop:
      "depends_loop (\<lambda>x. recurseports depth popen x fl da (b - 1)) popen p da
         (popen (depends_cmd p da fl)) s0 = Some st'"
      by (simp add: recurseports_Suc s0_def del: recurseports.simps)
    have "set (all_ports s0) \<subseteq> set (all_ports st') \<and>
        (d \<in> set (all_ports s0) \<or> p = d \<longrightarrow> n st' = n s0) \<and>
        n st' \<le> n s0 + 1 \<and>
        (n st' \<noteq> n s0 \<longrightarrow> d \<in> set (all_ports st'))"
      unfolding n_def
    proof (rule depends_loop_once [where U = U, OF _ closed [OF Suc.prems(1)] loop])
      fix x s s' assume "x \<in> U" "recurseports depth popen x fl da (b - 1) s = Some s'"
      from Suc.IH [OF this] show "set (all_ports s) \<subseteq> set (all_ports s') \<and>
        (x \<noteq> d \<and> d \<in> set (all_ports s) \<longrightarrow>
           times_started (depends_cmd d da fl) s' = times_started (depends_cmd d da fl) s) \<and>
        times_started (depends_cmd d da fl) s' \<le> times_started (depends_cmd d da fl) s + 1 \<and>
        (x \<noteq> d \<and> times_started (depends_cmd d da fl) s' \<noteq> times_started (depends_cmd d da fl) s \<longrightarrow>
           d \<in> set (all_ports s'))"
        unfolding n_def by simp
    qed
    with False show ?thesis by (auto simp add: s0)
  qed
qed



section \<open>Repeated dependencies\<close>



section \<open>The node of a dependency is added twice\<close>

text \<open>
  C10: when the loop meets a dependency \<open>d\<close> that is not yet in \<open>all_ports\<close> and the
  budget left for it is not zero, \<open>add_node\<close> runs for \<open>d\<close> before the recursive call
  and again on entry to it: with the maintainer check enabled, the maintainer command of
  \<open>d\<close> is started twice in a row.
\<close>

theorem add_node_twice:
  assumes ab: "abandoned st"
    and new: "d \<noteq> ports" "d \<notin> set (all_ports st)"
    and budget: "mr - 1 \<noteq> 0"
    and loop: "depends_loop (\<lambda>x. recurseports depth popen x fl da (mr - 1)) popen ports da
                 (d # lines) st = Some st'"
  shows "\<exists>K. procs st' = procs st @
           [MakeMaintainer (flavorname2port d), MakeMaintainer (flavorname2port d)] @ K"
proof -
  let ?rec = "\<lambda>x. recurseports depth popen x fl da (mr - 1)"
  define s where "s = add_edge (fullname2port ports) (fullname2port d) (snd da) (visit ports st)"
  define s1 where "s1 = visit d (add_node popen d s)"
  have fresh: "d \<notin> set (all_ports s)" using new by (simp add: s_def)
  with loop obtain s2 where
    call: "?rec d s1 = Some s2" and rest: "depends_loop ?rec popen ports da lines s2 = Some st'"
    by (simp add: depends_loop_Cons s_def [symmetric] s1_def del: depends_loop.simps
          split: option.splits)
  from call obtain depth' where depth: "depth = Suc depth'"
    by (cases depth) simp_all
  define s3 where "s3 = spawn (depends_cmd d da fl) (add_node popen d (say d s1))"
  from call budget have inner:
    "depends_loop (\<lambda>x. recurseports depth' popen x fl da (mr - 1 - 1)) popen d da
       (popen (depends_cmd d da fl)) s3 = Some s2"
    by (simp add: depth recurseports_Suc s3_def del: recurseports.simps)
  have "abandoned s = abandoned st" by (simp add: s_def add_edge_def visit_def)
  with ab have "procs s3 = procs st @
      [MakeMaintainer (flavorname2port d), MakeMaintainer (flavorname2port d),
       depends_cmd d da fl]"
    by (simp add: s3_def s1_def s_def add_node_procs say_def visit_def)
  moreover from depends_loop_extends [OF inner] obtain K1 where "procs s2 = procs s3 @ K1"
    by (auto dest: traceD(3))
  moreover from depends_loop_extends [OF rest] obtain K2 where "procs st' = procs s2 @ K2"
    by (auto dest: traceD(3))
  ultimately have "procs st' = procs st @
      [MakeMaintainer (flavorname2port d), MakeMaintainer (flavorname2port d)] @
      (depends_cmd d da fl # K1 @ K2)"
    by simp
  then show ?thesis ..
qed

theorem add_node_twice_witness:
  "abandoned (example_portgraph False True (- 1)) \<and>
   ''/usr/ports/devel/bar'' \<noteq> ''/usr/ports/editors/foo'' \<and>
   ''/usr/ports/devel/bar'' \<notin> set (all_ports (example_portgraph False True (- 1))) \<and>
   (- 1 :: int) - 1 \<noteq> 0 \<and>
   (\<exists>st'. example_loop [''/usr/ports/devel/bar''] (example_portgraph False True (- 1)) = Some st' \<and>
      (\<exists>K. procs st' = procs (example_portgraph False True (- 1)) @
         [MakeMaintainer (flavorname2port ''/usr/ports/devel/bar''),
          MakeMaintainer (flavorname2port ''/usr/ports/devel/bar'')] @ K))"
proof -
  let ?bar = "''/usr/ports/devel/bar''"
  let ?st = "example_portgraph False True (- 1)"
  have a: "abandoned ?st" by code_simp
  have b: "?bar \<noteq> ''/usr/ports/editors/foo''" by code_simp
  have c: "?bar \<notin> set (all_ports ?st)" by code_simp
  have d: "(- 1 :: int) - 1 \<noteq> 0" by simp
  have "example_loop [?bar] ?st \<noteq> None" by code_simp
  then obtain st' where h: "example_loop [?bar] ?st = Some st'"
    by (cases "example_loop [?bar] ?st") simp_all
  note w = add_node_twice [OF a b c d h [unfolded example_loop_def]]
  from h w have "\<exists>st'. example_loop [?bar] ?st = Some st' \<and>
      (\<exists>K. procs st' = procs ?st @
         [MakeMaintainer (flavorname2port ?bar), MakeMaintainer (flavorname2port ?bar)] @ K)"
    by (intro exI [of _ st'] conjI)
  with a b c d show ?thesis by (intro conjI)
qed

section \<open>Names in the graph\<close>

lemma dependency_closedD:
  assumes "dependency_closed popen fl U" "p \<in> U"
  shows "set (popen (depends_cmd p (''build'', c) fl)) \<subseteq> U"
    and "set (popen (depends_cmd p (''run'', c) fl)) \<subseteq> U"
  using assms by (simp_all add: dependency_closed_def depends_cmd_def)

lemma emitted_config:
  assumes "config s = config st"
  shows "emitted popen s U col x = emitted popen st U col x"
  unfolding emitted_def shown_config [OF assms] node_stmt_config [OF assms] ..

lemma emitted_flavored: "emitted popen (flavored st) U col x = emitted popen st U col x"
  by (simp add: emitted_def shown_flavored node_stmt_flavored)

lemma started_config:
  assumes "config s = config st"
  shows "started s U da fl k = started st U da fl k"
  unfolding started_def config_eqD(13) [OF assms] ..

lemma started_flavored: "started (flavored st) U da fl k = started st U da fl k"
  by (simp add: started_def config_flavored)

lemma config_flavored_root:
  assumes "config s = config (flavored st)"
  shows "os_path_join (localbase s) (port s) = root st" "flavor s = flavor st"
    "recursion s = recursion st" "run s = run st"
  using config_eqD [OF assms] by (simp_all add: root_def config_flavored)

lemma build_graph_trace:
  assumes bg: "build_graph depth popen st = Some st'"
    and root: "root st \<in> U" and closed: "dependency_closed popen (flavor st) U"
  shows "\<exists>G K A. graph_body st' = graph_body st @ G \<and> procs st' = procs st @ K \<and>
           all_ports st' = all_ports st @ A \<and>
           (\<forall>x\<in>set G. written popen st U x) \<and> (\<forall>k\<in>set K. run_cmd st U k) \<and>
           set A \<subseteq> U"
proof -
  from bg obtain st1 where
    p1: "if build st
         then recurseports depth popen (root st) (flavor st) (''build'', ''#009999'')
                (recursion st) (flavored st) = Some st1
         else st1 = flavored st"
    and p2: "if run st1
         then recurseports depth popen (os_path_join (localbase st1) (port st1)) (flavor st1)
                (''run'', ''#990000'') (recursion st1) st1 = Some st'
         else st' = st1"
    by (rule build_graph_passes)
  have t1: "trace popen U (''build'', ''#009999'') (flavor st) (flavored st) st1"
  proof (cases "build st")
    case True
    with p1 have "recurseports depth popen (root st) (flavor st) (''build'', ''#009999'')
                (recursion st) (flavored st) = Some st1" by simp
    with dependency_closedD(1) [OF closed] root show ?thesis
      by (rule recurseports_trace [where U = U and popen = popen and fl = "flavor st"
            and da = "(''build'', ''#009999'')"])
  next
    case False
    with p1 show ?thesis by (simp add: trace_refl)
  qed
  then have c1: "config st1 = config (flavored st)" by (rule traceD(1))
  note same = config_flavored_root [OF c1]
  have t2: "trace popen U (''run'', ''#990000'') (flavor st) st1 st'"
  proof (cases "run st1")
    case True
    with p2 have "recurseports depth popen (root st) (flavor st) (''run'', ''#990000'')
                (recursion st1) st1 = Some st'" by (simp add: same)
    with dependency_closedD(2) [OF closed] root show ?thesis
      by (rule recurseports_trace [where U = U and popen = popen and fl = "flavor st"
            and da = "(''run'', ''#990000'')"])
  next
    case False
    with p2 show ?thesis by (simp add: trace_refl)
  qed
  from t1 obtain G K A where 1: "graph_body st1 = graph_body st @ G"
    "procs st1 = procs st @ K" "all_ports st1 = all_ports st @ A"
    "\<forall>x\<in>set G. emitted popen st U ''#009999'' x"
    "\<forall>k\<in>set K. started st U (''build'', ''#009999'') (flavor st) k" "set A \<subseteq> U"
    by (auto simp add: trace_def config_flavored emitted_flavored started_flavored)
  from t2 obtain G' K' A' where 2: "graph_body st' = graph_body st1 @ G'"
    "procs st' = procs st1 @ K'" "all_ports st' = all_ports st1 @ A'"
    "\<forall>x\<in>set G'. emitted popen st U ''#990000'' x"
    "\<forall>k\<in>set K'. started st U (''run'', ''#990000'') (flavor st) k" "set A' \<subseteq> U"
    by (auto simp add: trace_def emitted_config [OF c1] emitted_flavored
          started_config [OF c1] started_flavored)
  from 1 2 have "graph_body st' = graph_body st @ (G @ G') \<and>
      procs st' = procs st @ (K @ K') \<and> all_ports st' = all_ports st @ (A @ A') \<and>
      (\<forall>x\<in>set (G @ G'). written popen st U x) \<and> (\<forall>k\<in>set (K @ K'). run_cmd st U k) \<and>
      set (A @ A') \<subseteq> U"
    by (auto simp add: written_def run_cmd_def)
  then show ?thesis by blast
qed

lemma dependency_closed_UNIV: "dependency_closed popen fl UNIV"
  by (simp add: dependency_closed_def)

text \<open>
  C3, as stated: the identifier of every node and of both ends of every edge is the
  flavour-stripped name. It fails for a flavoured root: \<open>add_node\<close> and the loop name
  nodes and edges by \<open>fullname2port\<close> of the name as given, and the flavour stays in.
\<close>

theorem flavor_in_names:
  "build_graph 2 example_popen example_flavored \<noteq> None \<and>
   Node ''devel/bar@py39'' None ''black'' ''filled'' \<in>
     set (graph_body (the (build_graph 2 example_popen example_flavored))) \<and>
   Edge ''devel/bar@py39'' ''editors/foo'' ''#009999'' \<in>
     set (graph_body (the (build_graph 2 example_popen example_flavored))) \<and>
   flavorname2port ''devel/bar@py39'' \<noteq> ''devel/bar@py39''"
  by code_simp

text \<open>
  C3, amended: every node that \<open>build_graph\<close> adds, and both ends of every edge, are
  named by the last two path segments of a name as the root or a dependency line gives
  it, flavour suffix kept. The flavour-stripped name is used for the URL of the node and
  for the directory of the maintainer and dependency-list commands.
\<close>

theorem names_keep_flavor:
  assumes "build_graph depth popen st = Some st'"
    and "root st \<in> U" and "dependency_closed popen (flavor st) U"
  shows "\<exists>G K. graph_body st' = graph_body st @ G \<and> procs st' = procs st @ K \<and>
     (\<forall>n u c s. Node n u c s \<in> set G \<longrightarrow>
        (\<exists>p\<in>U. n = fullname2port p \<and>
           u = (if url st then Some (www st @ fullname2port (flavorname2port p) @ suffix st)
                else None))) \<and>
     (\<forall>a b c. Edge a b c \<in> set G \<longrightarrow> a \<in> fullname2port ` U \<and> b \<in> fullname2port ` U) \<and>
     (\<forall>d. MakeMaintainer d \<in> set K \<longrightarrow> d \<in> flavorname2port ` U) \<and>
     (\<forall>d k f. MakeDependsList d k f \<in> set K \<longrightarrow> d \<in> flavorname2port ` U)"
proof -
  from build_graph_trace [OF assms] obtain G K where
    G: "graph_body st' = graph_body st @ G" and K: "procs st' = procs st @ K"
    and w: "\<forall>x\<in>set G. written popen st U x" and r: "\<forall>k\<in>set K. run_cmd st U k"
    by blast
  have "\<exists>p\<in>U. n = fullname2port p \<and>
           u = (if url st then Some (www st @ fullname2port (flavorname2port p) @ suffix st)
                else None)"
    if "Node n u c s \<in> set G" for n u c s
  proof -
    from w that have "written popen st U (Node n u c s)" by simp
    then show ?thesis by (auto simp add: written_def emitted_def node_stmt_def)
  qed
  moreover have "a \<in> fullname2port ` U \<and> b \<in> fullname2port ` U"
    if "Edge a b c \<in> set G" for a b c
  proof -
    from w that have "written popen st U (Edge a b c)" by simp
    then show ?thesis by (auto simp add: written_def emitted_def node_stmt_def)
  qed
  moreover have "d \<in> flavorname2port ` U" if "MakeMaintainer d \<in> set K" for d
  proof -
    from r that have "run_cmd st U (MakeMaintainer d)" by simp
    then show ?thesis by (auto simp add: run_cmd_def started_def depends_cmd_def)
  qed
  moreover have "d \<in> flavorname2port ` U" if "MakeDependsList d k f \<in> set K" for d k f
  proof -
    from r that have "run_cmd st U (MakeDependsList d k f)" by simp
    then show ?thesis by (auto simp add: run_cmd_def started_def depends_cmd_def)
  qed
  ultimately show ?thesis using G K by blast
qed

theorem names_keep_flavor_witness:
  "root example_flavored \<in> set example_flavored_ports \<and>
   dependency_closed example_popen (flavor example_flavored) (set example_flavored_ports) \<and>
   (\<exists>st'. build_graph 2 example_popen example_flavored = Some st' \<and>
      Node ''devel/bar@py39'' None ''black'' ''filled'' \<in> set (graph_body st') \<and>
      (\<exists>G K. graph_body st' = graph_body example_flavored @ G \<and>
         procs st' = procs example_flavored @ K \<and>
         (\<forall>n u c s. Node n u c s \<in> set G \<longrightarrow>
            (\<exists>p\<in>set example_flavored_ports. n = fullname2port p \<and>
               u = (if url example_flavored
                    then Some (www example_flavored @ fullname2port (flavorname2port p) @
                           suffix example_flavored)
                    else None))) \<and>
         (\<forall>a b c. Edge a b c \<in> set G \<longrightarrow>
            a \<in> fullname2port ` set example_flavored_ports \<and>
            b \<in> fullname2port ` set example_flavored_ports) \<and>
         (\<forall>d. MakeMaintainer d \<in> set K \<longrightarrow> d \<in> flavorname2port ` set example_flavored_ports) \<and>
         (\<forall>d k f. MakeDependsList d k f \<in> set K \<longrightarrow>
            d \<in> flavorname2port ` set example_flavored_ports)))"
proof -
  have a: "root example_flavored \<in> set example_flavored_ports" by code_simp
  have b: "dependency_closed example_popen (flavor example_flavored)
             (set example_flavored_ports)" by code_simp
  have "build_graph 2 example_popen example_flavored \<noteq> None" by code_simp
  then obtain st' where h: "build_graph 2 example_popen example_flavored = Some st'"
    by (cases "build_graph 2 example_popen example_flavored") simp_all
  have "Node ''devel/bar@py39'' None ''black'' ''filled'' \<in>
          set (graph_body (the (build_graph 2 example_popen example_flavored)))"
    by code_simp
  with h have n: "Node ''devel/bar@py39'' None ''black'' ''filled'' \<in> set (graph_body st')"
    by simp
  note w = names_keep_flavor [OF h a b]
  have "\<exists>st'. build_graph 2 example_popen example_flavored = Some st' \<and>
      Node ''devel/bar@py39'' None ''black'' ''filled'' \<in> set (graph_body st') \<and>
      (\<exists>G K. graph_body st' = graph_body example_flavored @ G \<and>
         procs st' = procs example_flavored @ K \<and>
         (\<forall>n u c s. Node n u c s \<in> set G \<longrightarrow>
            (\<exists>p\<in>set example_flavored_ports. n = fullname2port p \<and>
               u = (if url example_flavored
                    then Some (www example_flavored @ fullname2port (flavorname2port p) @
                           suffix example_flavored)
                    else None))) \<and>
         (\<forall>a b c. Edge a b c \<in> set G \<longrightarrow>
            a \<in> fullname2port ` set example_flavored_ports \<and>
            b \<in> fullname2port ` set example_flavored_ports) \<and>
         (\<forall>d. MakeMaintainer d \<in> set K \<longrightarrow> d \<in> flavorname2port ` set example_flavored_ports) \<and>
         (\<forall>d k f. MakeDependsList d k f \<in> set K \<longrightarrow>
            d \<in> flavorname2port ` set example_flavored_ports))"
    by (rule exI [of _ st'], rule conjI [OF h conjI [OF n w]])
  with a b show ?thesis by (intro conjI)
qed

section \<open>The privileged package\<close>

lemma hidden_pkg_not_node_nor_destination:
  assumes "build_graph depth popen st = Some st'" and "\<not> with_pkg st"
  shows "\<exists>G. graph_body st' = graph_body st @ G \<and>
           (\<forall>u c s. Node (pkg st) u c s \<notin> set G) \<and> (\<forall>a c. Edge a (pkg st) c \<notin> set G)"
proof -
  from build_graph_trace [OF assms(1) UNIV_I dependency_closed_UNIV] obtain G where
    G: "graph_body st' = graph_body st @ G" and w: "\<forall>x\<in>set G. written popen st UNIV x"
    by blast
  have "Node (pkg st) u c s \<notin> set G" for u c s
  proof
    assume "Node (pkg st) u c s \<in> set G"
    with w have "written popen st UNIV (Node (pkg st) u c s)" by simp
    with assms(2) show False
      by (auto simp add: written_def emitted_def node_stmt_def shown_def)
  qed
  moreover have "Edge a (pkg st) c \<notin> set G" for a c
  proof
    assume "Edge a (pkg st) c \<in> set G"
    with w have "written popen st UNIV (Edge a (pkg st) c)" by simp
    with assms(2) show False
      by (auto simp add: written_def emitted_def node_stmt_def shown_def)
  qed
  ultimately show ?thesis using G by blast
qed

text \<open>
  C2 asks that the privileged package, when hidden, is no node and no end of any edge.
  The guards keep it from being a node or the destination of an edge (the lemma above),
  but the traversal still expands it, and the edges to its own dependencies have it as
  their source: in the example tree the graph holds the edge from \<^verbatim>\<open>ports-mgmt/pkg\<close>
  to \<^verbatim>\<open>devel/qux\<close> although \<open>with_pkg\<close> is off.
\<close>

theorem hidden_pkg_edge_source:
  "\<not> with_pkg (example_portgraph False False (- 1)) \<and>
   build_graph 4 example_popen (example_portgraph False False (- 1)) \<noteq> None \<and>
   Edge ''ports-mgmt/pkg'' ''devel/qux'' ''#009999'' \<in>
     set (graph_body (the (build_graph 4 example_popen (example_portgraph False False (- 1)))))"
  by code_simp

section \<open>A depth budget of zero\<close>

lemma zero_budget:
  assumes "recursion st = 0"
  shows "build_graph (Suc depth) popen st = Some (flavored st)"
  using assms by (simp add: build_graph_unfold config_flavored del: recurseports.simps)
    (simp add: config_flavored)

text \<open>
  C5 asks that a depth budget of zero gives the node of the root and no edge. The test
  for the budget comes before \<open>add_node\<close>, so the first call returns at once: the graph
  of \<^verbatim>\<open>editors/foo\<close> is left with the attribute statement of the constructor, and
  has no node at all.
\<close>

theorem zero_budget_graph:
  "map_option graph_body (build_graph 1 example_popen (example_portgraph False False 0)) =
     Some [Attr ''node'' [(''style'', ''filled''), (''fillcolor'', ''#E1E1E1''),
                          (''fontcolor'', ''#737373'')]]"
  by code_simp

section \<open>The two passes\<close>

lemma build_graph_terminates:
  assumes fin: "finite U" and root: "root st \<in> U"
    and closed: "dependency_closed popen (flavor st) U"
    and depth: "card U \<le> depth"
  shows "\<exists>st'. build_graph depth popen st = Some st'"
proof -
  have closed1: "\<forall>p\<in>U. set (popen (depends_cmd p (''build'', ''#009999'') (flavor st))) \<subseteq> U"
    using dependency_closedD(1) [OF closed] by blast
  have closed2: "\<forall>p\<in>U. set (popen (depends_cmd p (''run'', ''#990000'') (flavor st))) \<subseteq> U"
    using dependency_closedD(2) [OF closed] by blast
  have "\<exists>st1. (if build st
         then recurseports depth popen (root st) (flavor st) (''build'', ''#009999'')
                (recursion st) (flavored st)
         else Some (flavored st)) = Some st1 \<and> config st1 = config (flavored st)"
  proof (cases "build st")
    case True
    from recurseports_total [OF fin root closed1 depth] obtain st1 where
      st1: "recurseports depth popen (root st) (flavor st) (''build'', ''#009999'')
                (recursion st) (flavored st) = Some st1" by blast
    from traceD(1) [OF recurseports_trace_UNIV [OF st1]] st1 True show ?thesis by simp
  next
    case False
    then show ?thesis by simp
  qed
  then obtain st1 where
    p1: "(if build st
         then recurseports depth popen (root st) (flavor st) (''build'', ''#009999'')
                (recursion st) (flavored st)
         else Some (flavored st)) = Some st1"
    and c1: "config st1 = config (flavored st)" by blast
  have same: "os_path_join (localbase st1) (port st1) = root st" "flavor st1 = flavor st"
    using config_eqD(1,2,3) [OF c1] by (simp_all add: root_def config_flavored)
  have "\<exists>st'. (if run st1
         then recurseports depth popen (root st) (flavor st) (''run'', ''#990000'')
                (recursion st1) st1
         else Some st1) = Some st'"
    using recurseports_total [OF fin root closed2 depth] by simp
  then obtain st' where
    p2: "(if run st1
         then recurseports depth popen (root st) (flavor st) (''run'', ''#990000'')
                (recursion st1) st1
         else Some st1) = Some st'" ..
  have "build_graph depth popen st = Some st'"
    using p2 by (simp only: build_graph_unfold p1 option.case same)
  then show ?thesis ..
qed

lemma recurseports_direct_edges:
  assumes run: "recurseports depth popen ports fl da mr st = Some st'"
    and mr: "mr \<noteq> 0"
    and d: "d \<in> set (popen (depends_cmd ports da fl))"
    and sh: "shown st (fullname2port d)"
  shows "Edge (fullname2port ports) (fullname2port d) (snd da) \<in> set (graph_body st')"
proof -
  let ?rec = "\<lambda>x. recurseports (depth - 1) popen x fl da (mr - 1)"
  define s0 where "s0 = spawn (depends_cmd ports da fl) (add_node popen ports (say ports st))"
  from run obtain depth' where depth: "depth = Suc depth'" by (cases depth) simp_all
  from run mr have loop:
    "depends_loop ?rec popen ports da (popen (depends_cmd ports da fl)) s0 = Some st'"
    by (simp add: depth recurseports_Suc s0_def del: recurseports.simps)
  from d obtain pre post where lines: "popen (depends_cmd ports da fl) = pre @ d # post"
    by (auto dest: split_list)
  from loop have "(case depends_loop ?rec popen ports da pre s0 of
                None \<Rightarrow> None
              | Some s \<Rightarrow> depends_loop ?rec popen ports da (d # post) s) = Some st'"
    by (simp only: lines depends_loop_append [of _ _ _ _ pre "d # post"])
  then obtain s1 where
    before: "depends_loop ?rec popen ports da pre s0 = Some s1"
    and occ: "depends_loop ?rec popen ports da (d # post) s1 = Some st'"
    by (cases "depends_loop ?rec popen ports da pre s0") (simp_all del: depends_loop.simps)
  have "config s0 = config st" by (simp add: s0_def)
  with traceD(1) [OF depends_loop_extends [OF before]] have c1: "config s1 = config st"
    by (rule trans)
  from sh have "shown s1 (fullname2port d)" by (simp only: shown_config [OF c1])
  from depends_loop_step_edge [OF occ this] show ?thesis by auto
qed

lemma run_pass_skips_recorded:
  assumes closed: "\<And>p. p \<in> U \<Longrightarrow> set (popen (depends_cmd p da fl)) \<subseteq> U"
    and uniq: "\<And>p. p \<in> U \<Longrightarrow> flavorname2port p = flavorname2port q \<Longrightarrow> p = q"
    and r: "r \<in> U" and q: "q \<noteq> r" "q \<in> set (all_ports st)"
    and pass: "recurseports depth popen r fl da mr st = Some st'"
  shows "times_started (depends_cmd q da fl) st' = times_started (depends_cmd q da fl) st"
proof -
  have "set (all_ports st) \<subseteq> set (all_ports st') \<and>
     (r = q \<longrightarrow> times_started (depends_cmd q da fl) st' =
        times_started (depends_cmd q da fl) st + (if mr \<noteq> 0 then 1 else 0)) \<and>
     (r \<noteq> q \<and> q \<in> set (all_ports st) \<longrightarrow>
        times_started (depends_cmd q da fl) st' = times_started (depends_cmd q da fl) st) \<and>
     times_started (depends_cmd q da fl) st' \<le> times_started (depends_cmd q da fl) st + 1 \<and>
     (r \<noteq> q \<and> times_started (depends_cmd q da fl) st' \<noteq> times_started (depends_cmd q da fl) st \<longrightarrow>
        q \<in> set (all_ports st'))"
    using closed uniq r pass
    by (rule recurseports_once [where U = U and d = q and popen = popen and da = da
          and fl = fl])
  with q show ?thesis by auto
qed

text \<open>
  C4 asks that each pass has its own visited set, so that edges of both colours are there
  wherever both relations hold between reachable packages. But \<open>all_ports\<close> is set once
  by the constructor and the run pass goes on with the list the build pass left: it starts
  no dependency-list command for a name recorded there, the root apart (the lemma above).
  In the example tree \<^verbatim>\<open>devel/bar\<close> has \<^verbatim>\<open>devel/baz\<close> as a build and as a run
  dependency; with both passes only the build edge is in the graph, while the run pass on
  its own, from an empty list, does add the run edge.
\<close>

theorem run_pass_skips_visited:
  "''/usr/ports/devel/baz'' \<in>
     set (example_popen (MakeDependsList ''/usr/ports/devel/bar'' ''build'' None)) \<and>
   ''/usr/ports/devel/baz'' \<in>
     set (example_popen (MakeDependsList ''/usr/ports/devel/bar'' ''run'' None)) \<and>
   build_graph 4 example_popen (example_portgraph True False (- 1)) \<noteq> None \<and>
   Edge ''devel/bar'' ''devel/baz'' ''#009999'' \<in>
     set (graph_body (the (build_graph 4 example_popen (example_portgraph True False (- 1))))) \<and>
   Edge ''devel/bar'' ''devel/baz'' ''#990000'' \<notin>
     set (graph_body (the (build_graph 4 example_popen (example_portgraph True False (- 1))))) \<and>
   build_graph 4 example_popen example_run_only \<noteq> None \<and>
   Edge ''devel/bar'' ''devel/baz'' ''#990000'' \<in>
     set (graph_body (the (build_graph 4 example_popen example_run_only)))"
  by code_simp

section \<open>Batch mode\<close>

lemma port_loop_events:
  "port_loop g cat ports rendered =
     events_loop g (map (\<lambda>port'. Inr (os_path_join (name cat) (name port'))) ports) rendered"
  by (induction ports arbitrary: rendered) (simp_all split: option.splits sum.splits)

lemma events_loop_append:
  "events_loop g (xs @ ys) rendered =
     (case events_loop g xs rendered of
        None \<Rightarrow> None
      | Some (rendered', Some e) \<Rightarrow> Some (rendered', Some e)
      | Some (rendered', None) \<Rightarrow> events_loop g ys rendered')"
  by (induction g xs rendered rule: events_loop.induct)
    (simp_all split: option.splits sum.splits)

lemma cat_loop_events:
  "cat_loop g w localbase' cats rendered =
     events_loop g (concat (map (cat_events w localbase') cats)) rendered"
proof (induction cats arbitrary: rendered)
  case Nil
  show ?case by simp
next
  case (Cons cat cats)
  show ?case
  proof (cases "scandir w (os_path_join localbase' (os_path_join localbase' (name cat)))")
    case (Inl e)
    then show ?thesis by (simp add: cat_events_def)
  next
    case (Inr recs)
    then show ?thesis
      by (simp add: cat_events_def port_loop_events events_loop_append Cons.IH
            split: option.splits prod.splits)
  qed
qed

lemma graph4allports_events:
  "graph4allports depth w localbase' flavor' with_pkg' verbose' recursion' url' suffix'
     build' run' abandoned' clean =
   events_loop
     (\<lambda>port'. graph4port depth w port' localbase' flavor' with_pkg' verbose' recursion'
                url' suffix' build' run' abandoned' clean)
     (batch_events w localbase') []"
  by (cases "scandir w localbase'")
    (simp_all add: graph4allports_def batch_events_def cat_loop_events)

lemma events_loop_failure:
  assumes "list_all2 (\<lambda>q f. g q = Some (Inr f)) pre fs" and "g p = Some (Inl e)"
  shows "events_loop g (map Inr pre @ Inr p # post) rendered = Some (rendered @ fs, Some e)"
  using assms by (induction pre fs arbitrary: rendered rule: list_all2_induct) simp_all

lemma events_loop_listing_failure:
  assumes "list_all2 (\<lambda>q f. g q = Some (Inr f)) pre fs"
  shows "events_loop g (map Inr pre @ Inl e # post) rendered = Some (rendered @ fs, Some e)"
  using assms by (induction pre fs arbitrary: rendered rule: list_all2_induct) simp_all

text \<open>An exception of \<^verbatim>\<open>subprocess.Popen\<close> while building is the outcome of \<open>graph4port\<close>.\<close>

lemma graph4port_popen_failure:
  assumes "graph4port depth w port' localbase' flavor' with_pkg' verbose' recursion' url'
             suffix' build' run' abandoned' clean = Some r"
    and "build_graph depth (lines_of w)
           (Portgraph_init [] port' localbase' flavor' with_pkg' verbose' recursion' url'
              suffix' build' run' abandoned') = Some st'"
    and "first_raised w (procs st') = Some e"
  shows "r = Inl e"
  using assms by (simp add: graph4port_def Let_def)

text \<open>
  C7, as stated: in batch mode a failure for one package does not abort the batch, and the
  remaining packages are still processed. It fails: nothing catches the exception. When
  rendering \<^verbatim>\<open>editors/foo\<close> fails, \<^verbatim>\<open>editors/zed\<close> and \<^verbatim>\<open>editors/vim\<close>, which
  would render, are never reached.
\<close>

theorem batch_not_isolated:
  "batch_events (example_world [] ''editors/foo'') ''/usr/ports'' =
     [Inr ''editors/foo'', Inr ''editors/zed'', Inr ''editors/vim''] \<and>
   example_graph4port [] ''editors/foo'' ''editors/foo'' = Some (Inl RenderError) \<and>
   example_graph4port [] ''editors/foo'' ''editors/zed'' = Some (Inr ''editors/zed'') \<and>
   example_graph4port [] ''editors/foo'' ''editors/vim'' = Some (Inr ''editors/vim'') \<and>
   example_graph4allports [] ''editors/foo'' = Some ([], Some RenderError)"
  by code_simp

text \<open>
  C7, amended: in batch mode the first failure of \<open>graph4port\<close>, be it while building
  (\<^verbatim>\<open>subprocess.Popen\<close> raises) or while rendering (\<^verbatim>\<open>os.makedirs\<close> or
  \<^verbatim>\<open>graph.render\<close> raises), ends the batch with that exception. The ports enumerated
  before it have been rendered, and no port after it is processed: the outcome does not
  depend on what follows.
\<close>

theorem batch_aborts_at_first_failure:
  assumes "batch_events w localbase' = map Inr pre @ Inr p # post"
    and "list_all2
           (\<lambda>q f. graph4port depth w q localbase' flavor' with_pkg' verbose' recursion' url'
                     suffix' build' run' abandoned' clean = Some (Inr f)) pre fs"
    and "graph4port depth w p localbase' flavor' with_pkg' verbose' recursion' url' suffix'
           build' run' abandoned' clean = Some (Inl e)"
  shows "graph4allports depth w localbase' flavor' with_pkg' verbose' recursion' url' suffix'
           build' run' abandoned' clean = Some (fs, Some e)"
  using events_loop_failure [where rendered = "[]", OF assms(2,3)]
  by (simp only: graph4allports_events assms(1) append_Nil)

theorem batch_aborts_at_first_failure_witness:
  "batch_events (example_world ''/usr/ports/editors/zed'' []) ''/usr/ports'' =
     map Inr [''editors/foo''] @ Inr ''editors/zed'' # [Inr ''editors/vim''] \<and>
   list_all2 (\<lambda>q f. example_graph4port ''/usr/ports/editors/zed'' [] q = Some (Inr f))
     [''editors/foo''] [''editors/foo''] \<and>
   example_graph4port ''/usr/ports/editors/zed'' [] ''editors/zed'' = Some (Inl PopenError) \<and>
   example_graph4port ''/usr/ports/editors/zed'' [] ''editors/vim'' =
     Some (Inr ''editors/vim'') \<and>
   example_graph4allports ''/usr/ports/editors/zed'' [] =
     Some ([''editors/foo''], Some PopenError)"
proof -
  have a: "batch_events (example_world ''/usr/ports/editors/zed'' []) ''/usr/ports'' =
     map Inr [''editors/foo''] @ Inr ''editors/zed'' # [Inr ''editors/vim'']" by code_simp
  have b: "list_all2 (\<lambda>q f. example_graph4port ''/usr/ports/editors/zed'' [] q = Some (Inr f))
     [''editors/foo''] [''editors/foo'']" by code_simp
  have c: "example_graph4port ''/usr/ports/editors/zed'' [] ''editors/zed'' =
     Some (Inl PopenError)"
    by code_simp
  have d: "example_graph4port ''/usr/ports/editors/zed'' [] ''editors/vim'' =
     Some (Inr ''editors/vim'')"
    by code_simp
  from a b c d
    batch_aborts_at_first_failure [OF a b [unfolded example_graph4port_def]
      c [unfolded example_graph4port_def], folded example_graph4allports_def]
  show ?thesis by (intro conjI)
qed

end
